theory Spec2Isabelle
  imports Main
begin

section \<open>Go machine integers and the standard library functions the scheduler calls\<close>

text \<open>
  Go's \<open>int\<close> is a 64-bit two's complement integer on the platforms the server is built for.
  Values are kept as mathematical integers and every arithmetic result of the source is
  passed through \<open>int64\<close>, which writes the wrap-around out.
\<close>

definition int64 :: "int \<Rightarrow> int" where
  "int64 x = (x + 9223372036854775808) mod 18446744073709551616 - 9223372036854775808"

definition MaxInt64 :: int where
  "MaxInt64 = 9223372036854775807"

definition MinInt64 :: int where
  "MinInt64 = - 9223372036854775808"

definition is_digit :: "char \<Rightarrow> bool" where
  "is_digit c = (48 \<le> (of_char c :: nat) \<and> (of_char c :: nat) \<le> 57)"

fun digits_value :: "int \<Rightarrow> string \<Rightarrow> int" where
  "digits_value n [] = n"
| "digits_value n (c # cs) = digits_value (n * 10 + (int (of_char c) - 48)) cs"

datatype error = Err string

text \<open>
  \<open>strconv.Atoi\<close> of the Go standard library: an optional sign followed by at least one
  decimal digit. A syntax error yields 0, a value outside the 64-bit range yields the nearest
  bound; both come with an error.
\<close>

definition parse_digits :: "bool \<Rightarrow> string \<Rightarrow> int \<times> error option" where
  "parse_digits neg ds =
     (if ds = [] \<or> \<not> list_all is_digit ds then (0, Some (Err ''invalid syntax''))
      else let un = digits_value 0 ds in
        if \<not> neg \<and> un \<ge> 9223372036854775808 then (MaxInt64, Some (Err ''value out of range''))
        else if neg \<and> un > 9223372036854775808 then (MinInt64, Some (Err ''value out of range''))
        else (if neg then - un else un, None))"

fun Atoi :: "string \<Rightarrow> int \<times> error option" where
  "Atoi [] = (0, Some (Err ''invalid syntax''))"
| "Atoi (c # cs) =
     (if c = CHR ''-'' then parse_digits True cs
      else if c = CHR ''+'' then parse_digits False cs
      else parse_digits False (c # cs))"

declare Atoi.simps [simp del]

section \<open>Time\<close>

text \<open>
  A \<open>time.Time\<close> is an instant, kept as the number of nanoseconds since the Unix epoch in
  UTC; the range of Go's \<open>Time\<close> is far wider than any date in use and is not modelled. A
  \<open>time.Duration\<close> is a 64-bit count of nanoseconds. \<open>Hour\<close>, \<open>Minute\<close>, \<open>Add\<close> and
  \<open>Before\<close> are the methods of \<open>Time\<close>, read in UTC.
\<close>

type_synonym time = int

definition Nanos_Minute :: int where
  "Nanos_Minute = 60000000000"

definition Nanos_Hour :: int where
  "Nanos_Hour = 3600000000000"

definition Nanos_Day :: int where
  "Nanos_Day = 86400000000000"

definition Hour :: "time \<Rightarrow> int" where
  "Hour t = (t div Nanos_Hour) mod 24"

definition Minute :: "time \<Rightarrow> int" where
  "Minute t = (t div Nanos_Minute) mod 60"

definition Add :: "time \<Rightarrow> int \<Rightarrow> time" where
  "Add t d = t + d"

definition Before :: "time \<Rightarrow> time \<Rightarrow> bool" where
  "Before t u = (t < u)"

text \<open>
  Modelled from the spec: \<open>MinsOfDay\<close> of the package \<open>utils/timeutil\<close>, which is not part
  of the sources at hand. It reads an \<open>HH:MM\<close> string as minutes since midnight. For a
  string that is not \<open>HH:MM\<close> the spec fixes no value; the model returns 0.
\<close>

definition valid_HHMM :: "string \<Rightarrow> bool" where
  "valid_HHMM s =
     (case s of
        [h1, h2, c, m1, m2] \<Rightarrow>
          is_digit h1 \<and> is_digit h2 \<and> c = CHR '':'' \<and> is_digit m1 \<and> is_digit m2
          \<and> digits_value 0 [h1, h2] < 24 \<and> digits_value 0 [m1, m2] < 60
      | _ \<Rightarrow> False)"

definition MinsOfDay :: "string \<Rightarrow> int" where
  "MinsOfDay s =
     (if valid_HHMM s then digits_value 0 (take 2 s) * 60 + digits_value 0 (drop 3 s) else 0)"

text \<open>
  Modelled from the spec: \<open>GetElapsedMinsInThisDay\<close> of the package \<open>utils/timeutil\<close>,
  which is not part of the sources at hand. It is the minute-of-day of an instant.
\<close>

definition GetElapsedMinsInThisDay :: "time \<Rightarrow> int" where
  "GetElapsedMinsInThisDay currentTime = Hour currentTime * 60 + Minute currentTime"

text \<open>
  Modelled from the spec: \<open>StartOfDay\<close> of the package \<open>utils/timeutil\<close>, which is not
  part of the sources at hand. It is midnight of the instant's UTC day.
\<close>

definition StartOfDay :: "time \<Rightarrow> time" where
  "StartOfDay t = t - t mod Nanos_Day"

section \<open>Scheduled times\<close>

type_synonym cache = "string \<rightharpoonup> int list"

definition cacheKey :: "string \<Rightarrow> string \<Rightarrow> string" where
  "cacheKey syncFrequency syncStartAt = syncFrequency @ ''-'' @ syncStartAt"

text \<open>
  The cache is a package variable behind a lock: a call of \<open>scheduledTimes\<close> is one step
  that takes the cache and returns it, updated on a miss. The key is
  \<open>fmt.Sprintf("%s-%s", syncFrequency, syncStartAt)\<close>.

  The two \<open>for\<close> loops of \<open>scheduledTimes\<close> have no bound of their own, so each is a
  partial function: \<open>None\<close> stands for a loop that never leaves. The slice \<open>times\<close> of
  the source is \<open>ts\<close> here.
\<close>

partial_function (option) forward_loop :: "int \<Rightarrow> int \<Rightarrow> int \<Rightarrow> int list \<Rightarrow> int list option" where
  "forward_loop syncStartAtInMin syncFrequencyInMin counter ts =
     (let mins = int64 (syncStartAtInMin + int64 (counter * syncFrequencyInMin)) in
      if mins \<ge> 1440 then Some ts
      else forward_loop syncStartAtInMin syncFrequencyInMin (int64 (counter + 1)) (ts @ [mins]))"

partial_function (option) backward_loop :: "int \<Rightarrow> int \<Rightarrow> int \<Rightarrow> int list \<Rightarrow> int list option" where
  "backward_loop syncStartAtInMin syncFrequencyInMin counter prependTimes =
     (let mins = int64 (syncStartAtInMin - int64 (counter * syncFrequencyInMin)) in
      if mins < 0 then Some prependTimes
      else backward_loop syncStartAtInMin syncFrequencyInMin (int64 (counter + 1)) (prependTimes @ [mins]))"

declare forward_loop.simps [code]
declare backward_loop.simps [code]

definition scheduledTimes :: "cache \<Rightarrow> string \<Rightarrow> string \<Rightarrow> (int list \<times> cache) option" where
  "scheduledTimes scheduledTimesCache syncFrequency syncStartAt =
     (case scheduledTimesCache (cacheKey syncFrequency syncStartAt) of
        Some cachedTimes \<Rightarrow> Some (cachedTimes, scheduledTimesCache)
      | None \<Rightarrow>
          (let syncStartAtInMin = MinsOfDay syncStartAt;
               syncFrequencyInMin = fst (Atoi syncFrequency)
           in case forward_loop syncStartAtInMin syncFrequencyInMin 1 [syncStartAtInMin] of
                None \<Rightarrow> None
              | Some ts \<Rightarrow>
                  (case backward_loop syncStartAtInMin syncFrequencyInMin 1 [] of
                     None \<Rightarrow> None
                   | Some prependTimes \<Rightarrow>
                       (let ts' = rev prependTimes @ ts
                        in Some (ts',
                             scheduledTimesCache(cacheKey syncFrequency syncStartAt \<mapsto> ts'))))))"

section \<open>Previous scheduled time\<close>

text \<open>A run-time panic of Go is a result of its own, apart from the errors a function returns.\<close>

datatype panic = IndexOutOfRange | SliceBoundsOutOfRange

text \<open>Indexing a slice: Go panics outside \<open>0 \<le> i < len\<close>.\<close>

definition index :: "int list \<Rightarrow> int \<Rightarrow> panic + int" where
  "index xs i = (if 0 \<le> i \<and> i < int (length xs) then Inr (xs ! nat i) else Inl IndexOutOfRange)"

text \<open>
  The \<open>range\<close> loop of \<open>prevScheduledTime\<close>: \<open>n\<close> is \<open>len(allStartTimes)\<close>, the list
  argument is what is left to visit, \<open>idx\<close> the index of its head.
\<close>

fun pos_loop :: "int \<Rightarrow> nat \<Rightarrow> int list \<Rightarrow> nat \<Rightarrow> int \<Rightarrow> int" where
  "pos_loop currMins n [] idx pos = pos"
| "pos_loop currMins n (t # rest) idx pos =
     (if currMins \<ge> t
      then pos_loop currMins n rest (Suc idx) (if int idx = int n - 1 then int idx else pos)
      else int idx - 1)"

definition prevScheduledTime ::
  "cache \<Rightarrow> string \<Rightarrow> string \<Rightarrow> time \<Rightarrow> (panic + time \<times> cache) option" where
  "prevScheduledTime scheduledTimesCache syncFrequency syncStartAt currTime =
     (case scheduledTimes scheduledTimesCache syncFrequency syncStartAt of
        None \<Rightarrow> None
      | Some (allStartTimes, cache') \<Rightarrow>
          (let now = currTime;
               currMins = Hour now * 60 + Minute now;
               pos = pos_loop currMins (length allStartTimes) allStartTimes 0 0
           in if pos < 0 then
                (case index allStartTimes (int (length allStartTimes) - 1) of
                   Inl p \<Rightarrow> Some (Inl p)
                 | Inr t \<Rightarrow>
                     Some (Inr (Add (Add (StartOfDay now) (int64 (Nanos_Hour * (- 24))))
                                  (int64 (Nanos_Minute * t)), cache')))
              else
                (case index allStartTimes pos of
                   Inl p \<Rightarrow> Some (Inl p)
                 | Inr t \<Rightarrow> Some (Inr (Add (StartOfDay now) (int64 (Nanos_Minute * t)), cache')))))"

section \<open>Exclude window\<close>

datatype config_value = StringValue string | OtherValue

text \<open>
  Modelled from the spec: the key names of the exclude window live in the package
  \<open>warehouse/utils\<close>, which is not part of the sources at hand; the spec names them
  \<open>excludeWindow.startTime\<close> and \<open>excludeWindow.endTime\<close>.
\<close>

definition ExcludeWindowStartTime :: string where
  "ExcludeWindowStartTime = ''startTime''"

definition ExcludeWindowEndTime :: string where
  "ExcludeWindowEndTime = ''endTime''"

definition excludeWindowStartEndTimes :: "(string \<rightharpoonup> config_value) \<Rightarrow> string \<times> string" where
  "excludeWindowStartEndTimes excludeWindow =
     (let startTime = (case excludeWindow ExcludeWindowStartTime of
                         Some (StringValue st) \<Rightarrow> st | _ \<Rightarrow> []);
          endTime = (case excludeWindow ExcludeWindowEndTime of
                       Some (StringValue et) \<Rightarrow> et | _ \<Rightarrow> [])
      in (startTime, endTime))"

definition checkCurrentTimeExistsInExcludeWindow :: "time \<Rightarrow> string \<Rightarrow> string \<Rightarrow> bool" where
  "checkCurrentTimeExistsInExcludeWindow currentTime windowStartTime windowEndTime =
     (if windowStartTime = [] \<or> windowEndTime = [] then False
      else let startTimeMins = MinsOfDay windowStartTime;
               endTimeMins = MinsOfDay windowEndTime;
               currentTimeMins = GetElapsedMinsInThisDay currentTime
           in if startTimeMins < currentTimeMins \<and> currentTimeMins < endTimeMins then True
              else if startTimeMins > currentTimeMins \<and> currentTimeMins < endTimeMins
                      \<and> startTimeMins > endTimeMins then True
              else if startTimeMins < currentTimeMins \<and> currentTimeMins > endTimeMins
                      \<and> startTimeMins > endTimeMins then True
              else False)"

text \<open>
  The exclude window as the spec words it, for comparison with the code: the closed interval
  from start to end, wrapping past midnight when start is after end.
\<close>

definition InExcludeWindow_spec :: "time \<Rightarrow> string \<Rightarrow> string \<Rightarrow> bool" where
  "InExcludeWindow_spec t start end =
     (if start = [] \<or> end = [] then False
      else if MinsOfDay start \<le> MinsOfDay end
        then MinsOfDay start \<le> GetElapsedMinsInThisDay t \<and> GetElapsedMinsInThisDay t \<le> MinsOfDay end
        else GetElapsedMinsInThisDay t \<ge> MinsOfDay start \<or> GetElapsedMinsInThisDay t \<le> MinsOfDay end)"

text \<open>
  The same window with its two bounds left out: what remains of the spec's wording once the
  comparisons are strict.
\<close>

definition InExcludeWindow_open :: "time \<Rightarrow> string \<Rightarrow> string \<Rightarrow> bool" where
  "InExcludeWindow_open t start end =
     (start \<noteq> [] \<and> end \<noteq> []
      \<and> (if MinsOfDay start \<le> MinsOfDay end
         then MinsOfDay start < GetElapsedMinsInThisDay t \<and> GetElapsedMinsInThisDay t < MinsOfDay end
         else MinsOfDay start < GetElapsedMinsInThisDay t \<or> GetElapsedMinsInThisDay t < MinsOfDay end))"

section \<open>Deciding whether an upload can be created\<close>

text \<open>
  The local variable \<open>prevScheduledTime\<close> of the source is \<open>prevScheduled\<close> here, the
  context is left out.

  Of a warehouse the scheduler reads its identifier, the source and destination ids, and three
  values of the destination config: the exclude window map and the two schedule strings, as
  \<open>GetConfigValueAsMap\<close> and \<open>GetConfigValue\<close> return them.
\<close>

record warehouse =
  Identifier :: string
  SourceID :: string
  DestinationID :: string
  ExcludeWindow :: "string \<rightharpoonup> config_value"
  SyncFrequency :: string
  SyncStartAt :: string

text \<open>
  Of the router: the trigger store (the identifiers with a pending trigger), the flag
  \<open>warehouseSyncFreqIgnore\<close>, the clock (\<open>now r k\<close> is what the k-th call of \<open>r.now()\<close>
  within one run returns), the repository's \<open>LastCreatedAt\<close> and the method
  \<open>uploadFrequencyExceeded\<close>, whose body is not part of the sources at hand.
\<close>

record router =
  triggerStore :: "string set"
  warehouseSyncFreqIgnore :: bool
  now :: "nat \<Rightarrow> time"
  LastCreatedAt :: "string \<Rightarrow> string \<Rightarrow> error + time"
  uploadFrequencyExceeded :: "warehouse \<Rightarrow> string \<Rightarrow> bool"

definition canCreateUpload ::
  "bool \<Rightarrow> cache \<Rightarrow> router \<Rightarrow> warehouse \<Rightarrow> (panic + (bool \<times> error option) \<times> cache) option" where
  "canCreateUpload StartUploadAlways scheduledTimesCache r w =
     (if StartUploadAlways then Some (Inr ((True, None), scheduledTimesCache))
      else if Identifier w \<in> triggerStore r then Some (Inr ((True, None), scheduledTimesCache))
      else if warehouseSyncFreqIgnore r then
        (if uploadFrequencyExceeded r w [] then Some (Inr ((True, None), scheduledTimesCache))
         else Some (Inr ((False, Some (Err ''ignore sync freq: upload frequency exceeded'')),
                         scheduledTimesCache)))
      else
        (let excludeWindow = ExcludeWindow w;
             (excludeWindowStartTime, excludeWindowEndTime) = excludeWindowStartEndTimes excludeWindow
         in if checkCurrentTimeExistsInExcludeWindow (now r 0) excludeWindowStartTime excludeWindowEndTime
            then Some (Inr ((False, Some (Err ''exclude window: current time exists in exclude window'')),
                            scheduledTimesCache))
            else
              (let syncFrequency = SyncFrequency w;
                   syncStartAt = SyncStartAt w
               in if syncFrequency = [] \<or> syncStartAt = [] then
                    (if uploadFrequencyExceeded r w syncFrequency
                     then Some (Inr ((True, None), scheduledTimesCache))
                     else Some (Inr ((False, Some (Err ''upload frequency exceeded'')),
                                     scheduledTimesCache)))
                  else
                    (case prevScheduledTime scheduledTimesCache syncFrequency syncStartAt (now r 1) of
                       None \<Rightarrow> None
                     | Some (Inl p) \<Rightarrow> Some (Inl p)
                     | Some (Inr (prevScheduled, cache')) \<Rightarrow>
                         (case LastCreatedAt r (SourceID w) (DestinationID w) of
                            Inl err \<Rightarrow> Some (Inr ((False, Some err), cache'))
                          | Inr lastUploadCreatedAt \<Rightarrow>
                              if Before lastUploadCreatedAt prevScheduled
                              then Some (Inr ((True, None), cache'))
                              else Some (Inr ((False, Some (Err ''before scheduled time'')), cache')))))))"

section \<open>Object names of the GCS file manager\<close>

record GCSConfig =
  Bucket :: string
  Prefix :: string
  Credentials :: string

text \<open>
  A Go string is a sequence of bytes and \<open>len\<close> counts bytes, as \<open>length\<close> does on
  \<open>string\<close>. The slice expression \<open>location[n:]\<close> panics when \<open>n\<close> exceeds the length.
\<close>

definition GetObjectNameFromLocation :: "GCSConfig \<Rightarrow> string \<Rightarrow> panic + string \<times> error option" where
  "GetObjectNameFromLocation config location =
     (let baseURL = [];
          baseURL = baseURL @ (''https://storage.googleapis.com'' @ ''/'');
          baseURL = baseURL @ (Bucket config @ ''/'')
      in if length baseURL \<le> length location
         then Inr (drop (length baseURL) location, None)
         else Inl SliceBoundsOutOfRange)"


section \<open>The column values of the MSSQL driver\<close>

text \<open>
  Modelled from the spec: the MSSQL driver (\<open>ProcessColumnValue\<close> and \<open>LoadTable\<close> of
  \<open>warehouse/integrations/mssql\<close>) is not part of the sources at hand; only its test is.
  The spec gives the rules per logical type: \<open>int\<close> is a base-10 integer in the 64-bit signed
  range, nothing with a decimal point; \<open>float\<close> is an IEEE-754 double, non-numeric input is
  rejected; \<open>boolean\<close> is \<open>true\<close> or \<open>false\<close> in any case; \<open>datetime\<close> is RFC 3339;
  \<open>string\<close> is passed through, truncated to 512 characters, and re-encoded as UTF-16LE when
  it holds a character outside ASCII.
\<close>

datatype dataType =
  IntDataType | FloatDataType | BooleanDataType | StringDataType | DateTimeDataType

record datetime =
  year :: int
  month :: int
  day :: int
  hour :: int
  minute :: int
  second :: int
  fraction :: string
  offsetMinutes :: int

text \<open>
  A finite IEEE-754 double: \<open>Float64 neg m e\<close> stands for plus or minus \<open>m\<close> times two to
  the \<open>e\<close>. Every finite double has one such form with either \<open>m\<close> from \<open>2^52\<close> to below
  \<open>2^53\<close> and \<open>e\<close> from -1074 to 971 (normal), or \<open>m\<close> below \<open>2^52\<close> and \<open>e\<close> equal to
  -1074 (subnormal and zero). Only these forms are built.
\<close>

datatype float64 = Float64 bool nat int

datatype column_value =
  IntValue int
| FloatValue float64
| BoolValue bool
| TimeValue datetime
| TextValue string
| BytesValue "nat list"

definition mssqlStringLengthLimit :: nat where
  "mssqlStringLengthLimit = 512"

text \<open>
  The 64 bits of a double, as \<open>math.Float64bits\<close> gives them: the sign bit, eleven bits of
  exponent biased by 1023, and the 52 bits of the mantissa below its leading one.
\<close>

definition Float64bits :: "float64 \<Rightarrow> nat" where
  "Float64bits f =
     (case f of Float64 neg m e \<Rightarrow>
        (if neg then 2 ^ 63 else 0)
        + (if m < 2 ^ 52 then m else nat (e + 1075) * 2 ^ 52 + (m - 2 ^ 52)))"

text \<open>The number of binary digits of a natural number.\<close>

fun bit_length :: "nat \<Rightarrow> nat" where
  "bit_length n = (if n = 0 then 0 else Suc (bit_length (n div 2)))"

declare bit_length.simps [simp del]

text \<open>The quotient \<open>n / d\<close> rounded to the nearest natural number, a tie to the even one.\<close>

definition round_half_even :: "nat \<Rightarrow> nat \<Rightarrow> nat" where
  "round_half_even n d =
     (let q = n div d; r = n mod d
      in if 2 * r < d then q else if d < 2 * r then q + 1 else if even q then q else q + 1)"

text \<open>
  The double nearest to the quotient \<open>a / b\<close>, a tie to the even mantissa, as mantissa and
  exponent; \<open>None\<close> when the rounded value is beyond the largest finite double. The quotient
  is counted in units of \<open>2^-1074\<close>, the smallest positive double: \<open>n / b\<close> units. A double
  keeps 53 binary digits, so with an integer part of \<open>l\<close> digits the last digit kept weighs
  \<open>2^g\<close> units, \<open>g = l - 53\<close>, and one unit when \<open>l\<close> is below 53 (the subnormal
  doubles). The mantissa is the quotient over \<open>2^g\<close> units, rounded; a mantissa rounded up to
  \<open>2^53\<close> is \<open>2^52\<close> at the next exponent. The largest exponent of a finite double is 971,
  which is \<open>g = 2045\<close>.
\<close>

definition round_float64 :: "nat \<Rightarrow> nat \<Rightarrow> (nat \<times> int) option" where
  "round_float64 a b =
     (let n = a * 2 ^ 1074;
          g = bit_length (n div b) - 53;
          m = round_half_even n (b * 2 ^ g)
      in if m = 2 ^ 53 then (if 2045 < g + 1 then None else Some (2 ^ 52, int (g + 1) - 1074))
         else if 2045 < g then None else Some (m, int g - 1074))"

text \<open>
  A decimal number: a sign, digits with an optional point, an optional power of ten. It is
  read as sign, digits and power of ten: the digits times ten to the power.
\<close>

definition parse_exponent :: "string \<Rightarrow> int option" where
  "parse_exponent s =
     (case s of
        [] \<Rightarrow> Some 0
      | e # ds \<Rightarrow>
          if e = CHR ''e'' \<or> e = CHR ''E'' then
            (case ds of
               [] \<Rightarrow> None
             | c # cs \<Rightarrow>
                 if c = CHR ''-'' then
                   (if cs \<noteq> [] \<and> list_all is_digit cs then Some (- digits_value 0 cs) else None)
                 else if c = CHR ''+'' then
                   (if cs \<noteq> [] \<and> list_all is_digit cs then Some (digits_value 0 cs) else None)
                 else (if list_all is_digit ds then Some (digits_value 0 ds) else None))
          else None)"

definition parse_unsigned_decimal :: "string \<Rightarrow> (nat \<times> int) option" where
  "parse_unsigned_decimal s =
     (let ip = takeWhile is_digit s; r = dropWhile is_digit s;
          fp = (case r of c # cs \<Rightarrow> if c = CHR ''.'' then takeWhile is_digit cs else [] | [] \<Rightarrow> []);
          r' = (case r of c # cs \<Rightarrow> if c = CHR ''.'' then dropWhile is_digit cs else r | [] \<Rightarrow> [])
      in if ip = [] \<and> fp = [] then None
         else (case parse_exponent r' of
                 None \<Rightarrow> None
               | Some e \<Rightarrow> Some (nat (digits_value 0 (ip @ fp)), e - int (length fp))))"

definition parse_decimal :: "string \<Rightarrow> (bool \<times> nat \<times> int) option" where
  "parse_decimal s =
     (case s of
        [] \<Rightarrow> None
      | c # cs \<Rightarrow>
          if c = CHR ''-'' then map_option (Pair True) (parse_unsigned_decimal cs)
          else if c = CHR ''+'' then map_option (Pair False) (parse_unsigned_decimal cs)
          else map_option (Pair False) (parse_unsigned_decimal s))"

text \<open>
  Modelled from the spec: a float is parsed as an IEEE-754 double. The decimal read,
  \<open>d\<close> times ten to the \<open>x\<close>, is the quotient of \<open>d * 10^x\<close> by one when \<open>x\<close> is not
  negative and of \<open>d\<close> by \<open>10^-x\<close> otherwise; it is rounded to the nearest double. What is
  no decimal number is a syntax error, what rounds beyond the largest double a range error.
\<close>

definition ParseFloat :: "string \<Rightarrow> error + float64" where
  "ParseFloat s =
     (case parse_decimal s of
        None \<Rightarrow> Inl (Err ''invalid syntax'')
      | Some (neg, d, x) \<Rightarrow>
          (case round_float64 (d * 10 ^ nat x) (10 ^ nat (- x)) of
             None \<Rightarrow> Inl (Err ''value out of range'')
           | Some (m, e) \<Rightarrow> Inr (Float64 neg m e)))"

definition to_lower :: "char \<Rightarrow> char" where
  "to_lower c =
     (case map_of (zip ''ABCDEFGHIJKLMNOPQRSTUVWXYZ'' ''abcdefghijklmnopqrstuvwxyz'') c of
        Some l \<Rightarrow> l
      | None \<Rightarrow> c)"

text \<open>RFC 3339: \<open>YYYY-MM-DDTHH:MM:SS\<close>, an optional fraction, then \<open>Z\<close> or an offset.\<close>

definition days_in_month :: "int \<Rightarrow> int \<Rightarrow> int" where
  "days_in_month y m =
     (if m = 2 then (if y mod 4 = 0 \<and> (y mod 100 \<noteq> 0 \<or> y mod 400 = 0) then 29 else 28)
      else if m = 4 \<or> m = 6 \<or> m = 9 \<or> m = 11 then 30 else 31)"

definition parse_zone :: "string \<Rightarrow> int option" where
  "parse_zone z =
     (if z = ''Z'' then Some 0
      else (case z of
              [sg, h1, h2, c, m1, m2] \<Rightarrow>
                if (sg = CHR ''+'' \<or> sg = CHR ''-'') \<and> c = CHR '':''
                   \<and> list_all is_digit [h1, h2, m1, m2]
                   \<and> digits_value 0 [h1, h2] < 24 \<and> digits_value 0 [m1, m2] < 60
                then Some ((if sg = CHR ''-'' then - 1 else 1)
                           * (digits_value 0 [h1, h2] * 60 + digits_value 0 [m1, m2]))
                else None
            | _ \<Rightarrow> None))"

definition parse_rfc3339 :: "string \<Rightarrow> datetime option" where
  "parse_rfc3339 s =
     (if length s < 20 then None
      else let y = take 4 s; mo = take 2 (drop 5 s); d = take 2 (drop 8 s);
               h = take 2 (drop 11 s); mi = take 2 (drop 14 s); se = take 2 (drop 17 s);
               rest = drop 19 s;
               fr = (case rest of c # cs \<Rightarrow> if c = CHR ''.'' then takeWhile is_digit cs else []
                     | [] \<Rightarrow> []);
               z = (case rest of c # cs \<Rightarrow> if c = CHR ''.'' then dropWhile is_digit cs else rest
                    | [] \<Rightarrow> [])
           in if list_all is_digit (y @ mo @ d @ h @ mi @ se)
                 \<and> s ! 4 = CHR ''-'' \<and> s ! 7 = CHR ''-'' \<and> s ! 10 = CHR ''T''
                 \<and> s ! 13 = CHR '':'' \<and> s ! 16 = CHR '':''
                 \<and> (hd rest = CHR ''.'' \<longrightarrow> fr \<noteq> [])
                 \<and> 1 \<le> digits_value 0 mo \<and> digits_value 0 mo \<le> 12
                 \<and> 1 \<le> digits_value 0 d
                 \<and> digits_value 0 d \<le> days_in_month (digits_value 0 y) (digits_value 0 mo)
                 \<and> digits_value 0 h < 24 \<and> digits_value 0 mi < 60 \<and> digits_value 0 se < 60
              then (case parse_zone z of
                      None \<Rightarrow> None
                    | Some off \<Rightarrow>
                        Some \<lparr>year = digits_value 0 y, month = digits_value 0 mo,
                              day = digits_value 0 d, hour = digits_value 0 h,
                              minute = digits_value 0 mi, second = digits_value 0 se,
                              fraction = fr, offsetMinutes = off\<rparr>)
              else None)"

text \<open>
  A Go string holds UTF-8. Its characters are read off the bytes; a byte that starts no
  well-formed sequence counts as the replacement character U+FFFD.
\<close>

definition is_cont :: "nat \<Rightarrow> bool" where
  "is_cont b = (128 \<le> b \<and> b < 192)"

definition seq2 :: "nat \<Rightarrow> nat list \<Rightarrow> nat option" where
  "seq2 b0 bs =
     (case bs of
        b1 # rest \<Rightarrow>
          if 194 \<le> b0 \<and> b0 < 224 \<and> is_cont b1 then Some ((b0 - 192) * 64 + (b1 - 128))
          else None
      | [] \<Rightarrow> None)"

definition seq3 :: "nat \<Rightarrow> nat list \<Rightarrow> nat option" where
  "seq3 b0 bs =
     (case bs of
        b1 # b2 # rest \<Rightarrow>
          (let r = (b0 - 224) * 4096 + (b1 - 128) * 64 + (b2 - 128)
           in if 224 \<le> b0 \<and> b0 < 240 \<and> is_cont b1 \<and> is_cont b2
                 \<and> 2048 \<le> r \<and> \<not> (55296 \<le> r \<and> r < 57344)
              then Some r else None)
      | _ \<Rightarrow> None)"

definition seq4 :: "nat \<Rightarrow> nat list \<Rightarrow> nat option" where
  "seq4 b0 bs =
     (case bs of
        b1 # b2 # b3 # rest \<Rightarrow>
          (let r = (b0 - 240) * 262144 + (b1 - 128) * 4096 + (b2 - 128) * 64 + (b3 - 128)
           in if 240 \<le> b0 \<and> b0 < 245 \<and> is_cont b1 \<and> is_cont b2 \<and> is_cont b3
                 \<and> 65536 \<le> r \<and> r < 1114112
              then Some r else None)
      | _ \<Rightarrow> None)"

fun decode_runes :: "nat list \<Rightarrow> nat list" where
  "decode_runes [] = []"
| "decode_runes (b0 # bs) =
     (if b0 < 128 then b0 # decode_runes bs
      else (case seq2 b0 bs of
              Some r \<Rightarrow> r # decode_runes (drop 1 bs)
            | None \<Rightarrow>
                (case seq3 b0 bs of
                   Some r \<Rightarrow> r # decode_runes (drop 2 bs)
                 | None \<Rightarrow>
                     (case seq4 b0 bs of
                        Some r \<Rightarrow> r # decode_runes (drop 3 bs)
                      | None \<Rightarrow> 65533 # decode_runes bs))))"

text \<open>UTF-16, little-endian: two bytes per unit, a surrogate pair above the basic plane.\<close>

definition utf16_units :: "nat \<Rightarrow> nat list" where
  "utf16_units r =
     (if r < 65536 then [r]
      else [55296 + (r - 65536) div 1024, 56320 + (r - 65536) mod 1024])"

definition utf16le :: "nat list \<Rightarrow> nat list" where
  "utf16le rs = concat (map (\<lambda>u. [u mod 256, u div 256]) (concat (map utf16_units rs)))"

definition hasDiacritics :: "string \<Rightarrow> bool" where
  "hasDiacritics s = (\<exists>c\<in>set s. 128 \<le> (of_char c :: nat))"

text \<open>
  Modelled from the spec: \<open>ProcessColumnValue\<close> of the MSSQL driver, which is not part of
  the sources at hand. One rule per logical type, as the spec lists them.
\<close>

definition ProcessColumnValue :: "string \<Rightarrow> dataType \<Rightarrow> error + column_value" where
  "ProcessColumnValue data dataType =
     (case dataType of
        IntDataType \<Rightarrow>
          (case Atoi data of (n, None) \<Rightarrow> Inr (IntValue n) | (n, Some e) \<Rightarrow> Inl e)
      | FloatDataType \<Rightarrow>
          (case ParseFloat data of
             Inl err \<Rightarrow> Inl err
           | Inr f \<Rightarrow> Inr (FloatValue f))
      | BooleanDataType \<Rightarrow>
          (if map to_lower data = ''true'' then Inr (BoolValue True)
           else if map to_lower data = ''false'' then Inr (BoolValue False)
           else Inl (Err ''invalid syntax''))
      | DateTimeDataType \<Rightarrow>
          (case parse_rfc3339 data of
             None \<Rightarrow> Inl (Err ''cannot parse as RFC 3339'')
           | Some t \<Rightarrow> Inr (TimeValue t))
      | StringDataType \<Rightarrow>
          (if hasDiacritics data
           then Inr (BytesValue (utf16le (take mssqlStringLengthLimit
                                            (decode_runes (map of_char data)))))
           else Inr (TextValue (take mssqlStringLengthLimit data))))"

section \<open>The grammars of the typed values\<close>

text \<open>
  What the spec calls numeric, written as a grammar: an optional sign, digits with an
  optional point and at least one digit before or after it, and an optional exponent, which
  is \<open>e\<close> or \<open>E\<close>, an optional sign and at least one digit.
\<close>

definition is_sign :: "string \<Rightarrow> bool" where
  "is_sign sg = (sg = [] \<or> sg = ''+'' \<or> sg = ''-'')"

definition is_decimal_exponent :: "string \<Rightarrow> bool" where
  "is_decimal_exponent ex =
     (\<exists>c sg ds. ex = c # sg @ ds \<and> (c = CHR ''e'' \<or> c = CHR ''E'') \<and> is_sign sg
        \<and> ds \<noteq> [] \<and> list_all is_digit ds)"

definition is_decimal_literal :: "string \<Rightarrow> bool" where
  "is_decimal_literal s =
     (\<exists>sg ip fp ex. s = sg @ ip @ fp @ ex \<and> is_sign sg \<and> list_all is_digit ip
        \<and> (fp = [] \<or> (\<exists>ds. fp = CHR ''.'' # ds \<and> list_all is_digit ds))
        \<and> (ip \<noteq> [] \<or> 1 < length fp)
        \<and> (ex = [] \<or> is_decimal_exponent ex))"

text \<open>
  The mantissa and exponent of a finite double in its one form: normal, or subnormal with
  the least exponent.
\<close>

definition is_float64 :: "nat \<Rightarrow> int \<Rightarrow> bool" where
  "is_float64 m e = (m < 2 ^ 53 \<and> - 1074 \<le> e \<and> e \<le> 971 \<and> (m < 2 ^ 52 \<longrightarrow> e = - 1074))"

text \<open>
  The \<open>date-time\<close> of RFC 3339, section 5.6: \<open>full-date "T" partial-time time-offset\<close>, with
  the ranges of section 5.7 for month, day of the month, hour and minute. Of the liberties
  the RFC leaves, none is taken: \<open>T\<close> and \<open>Z\<close> are upper case and a second is 00 to 59, so
  every string of this grammar is an RFC 3339 timestamp.
\<close>

definition is_time_offset :: "string \<Rightarrow> bool" where
  "is_time_offset z =
     (z = ''Z''
      \<or> (\<exists>sg zh zm. z = sg # zh @ '':'' @ zm \<and> (sg = CHR ''+'' \<or> sg = CHR ''-'')
            \<and> length zh = 2 \<and> length zm = 2 \<and> list_all is_digit (zh @ zm)
            \<and> digits_value 0 zh < 24 \<and> digits_value 0 zm < 60))"

definition is_rfc3339 :: "string \<Rightarrow> bool" where
  "is_rfc3339 s =
     (\<exists>y mo d h mi se fr z.
        s = y @ ''-'' @ mo @ ''-'' @ d @ ''T'' @ h @ '':'' @ mi @ '':'' @ se @ fr @ z
        \<and> length y = 4 \<and> length mo = 2 \<and> length d = 2
        \<and> length h = 2 \<and> length mi = 2 \<and> length se = 2
        \<and> list_all is_digit (y @ mo @ d @ h @ mi @ se)
        \<and> 1 \<le> digits_value 0 mo \<and> digits_value 0 mo \<le> 12
        \<and> 1 \<le> digits_value 0 d
        \<and> digits_value 0 d \<le> days_in_month (digits_value 0 y) (digits_value 0 mo)
        \<and> digits_value 0 h < 24 \<and> digits_value 0 mi < 60 \<and> digits_value 0 se < 60
        \<and> (fr = [] \<or> (\<exists>ds. fr = CHR ''.'' # ds \<and> ds \<noteq> [] \<and> list_all is_digit ds))
        \<and> is_time_offset z)"

section \<open>Loading a table of the MSSQL driver\<close>

text \<open>
  Modelled from the spec: \<open>LoadTable\<close> merges the rows of the load files into the table by
  \<open>id\<close>: a row whose id the table does not hold is inserted, a row whose id it holds
  replaces the held row and counts as updated. The rows follow the schema of the test table;
  a row holds its float as the decimal the load file writes, digits and power of ten.
\<close>

record event_row =
  row_id :: string
  test_bool :: bool
  test_int :: int
  test_float :: "int \<times> int"
  test_datetime :: string
  test_string :: string
  received_at :: string

record LoadTableStats =
  RowsInserted :: int
  RowsUpdated :: int

type_synonym table = "string \<rightharpoonup> event_row"

definition put_row :: "table \<Rightarrow> event_row \<Rightarrow> table" where
  "put_row t r = t(row_id r \<mapsto> r)"

definition merge_row :: "table \<times> LoadTableStats \<Rightarrow> event_row \<Rightarrow> table \<times> LoadTableStats" where
  "merge_row acc r =
     (case acc of (t, stats) \<Rightarrow>
        (case t (row_id r) of
           None \<Rightarrow> (put_row t r, stats\<lparr>RowsInserted := RowsInserted stats + 1\<rparr>)
         | Some old \<Rightarrow> (put_row t r, stats\<lparr>RowsUpdated := RowsUpdated stats + 1\<rparr>)))"

text \<open>
  Modelled from the spec: \<open>LoadTable\<close> of the MSSQL driver, which is not part of the
  sources at hand. It merges the rows one by one and counts the inserted and the updated.
\<close>

definition LoadTable :: "table \<Rightarrow> event_row list \<Rightarrow> table \<times> LoadTableStats" where
  "LoadTable t rows = foldl merge_row (t, \<lparr>RowsInserted = 0, RowsUpdated = 0\<rparr>) rows"

text \<open>Fourteen rows with the schema of the test table, their ids pairwise distinct.\<close>

definition staging_rows :: "event_row list" where
  "staging_rows =
     map (\<lambda>c. \<lparr>row_id = [c], test_bool = True, test_int = 1, test_float = (101, - 2),
                test_datetime = ''2020-01-01T00:00:00Z'', test_string = ''test'',
                received_at = ''2020-01-01T00:00:00Z''\<rparr>)
       ''abcdefghijklmn''"

section \<open>The states of the cache and the slots of a day\<close>

text \<open>
  The cache starts empty (\<open>init\<close>) and \<open>scheduledTimes\<close> is the only function that
  writes it: the caches the program can hold are those reached from the empty one by calls
  that return.
\<close>

inductive cache_reachable :: "cache \<Rightarrow> bool" where
  init: "cache_reachable Map.empty"
| call: "cache_reachable c \<Longrightarrow> scheduledTimes c syncFrequency syncStartAt = Some (ts, c')
         \<Longrightarrow> cache_reachable c'"

text \<open>
  The spec's daily slots for a start minute \<open>s\<close> and a frequency \<open>f\<close>: the minutes of
  \<open>[0, 1440)\<close> reached from \<open>s\<close> in steps of \<open>f\<close>, in ascending order. An instant is
  scheduled when it is the start of a minute whose minute-of-day is a slot.
\<close>

definition slots :: "int \<Rightarrow> int \<Rightarrow> int list" where
  "slots s f = map (\<lambda>k. s + k * f) [- (s div f)..(1439 - s) div f]"

definition is_slot :: "int \<Rightarrow> int \<Rightarrow> int \<Rightarrow> bool" where
  "is_slot s f m = (0 \<le> m \<and> m < 1440 \<and> (m - s) mod f = 0)"

definition scheduled_instant :: "int \<Rightarrow> int \<Rightarrow> time \<Rightarrow> bool" where
  "scheduled_instant s f u =
     (u mod Nanos_Minute = 0 \<and> is_slot s f ((u mod Nanos_Day) div Nanos_Minute))"

text \<open>What a call that misses the cache computes, whatever the cache holds.\<close>

definition computed :: "string \<Rightarrow> string \<Rightarrow> int list option" where
  "computed syncFrequency syncStartAt =
     map_option fst (scheduledTimes Map.empty syncFrequency syncStartAt)"

section \<open>Machine integers, parsing and the two loops\<close>

lemma int64_id: "- 9223372036854775808 \<le> x \<Longrightarrow> x < 9223372036854775808 \<Longrightarrow> int64 x = x"
  by (simp add: int64_def)

lemma int64_eqI:
  assumes "- 9223372036854775808 \<le> y" and "y < 9223372036854775808"
    and "x = y + k * 18446744073709551616"
  shows "int64 x = y"
proof -
  have "(x + 9223372036854775808) mod 18446744073709551616
        = (y + 9223372036854775808 + k * 18446744073709551616) mod 18446744073709551616"
    using assms(3) by (simp add: algebra_simps)
  also have "\<dots> = (y + 9223372036854775808) mod 18446744073709551616"
    by simp
  also have "\<dots> = y + 9223372036854775808"
    using assms(1,2) by simp
  finally show ?thesis by (simp add: int64_def)
qed

lemma digits_value_mono: "0 \<le> n \<Longrightarrow> list_all is_digit ds \<Longrightarrow> n \<le> digits_value n ds"
proof (induction ds arbitrary: n)
  case Nil
  then show ?case by simp
next
  case (Cons c cs)
  have "48 \<le> int (of_char c)" using Cons.prems(2) by (simp add: is_digit_def)
  then have "n \<le> n * 10 + (int (of_char c) - 48)" using Cons.prems(1) by simp
  moreover have "n * 10 + (int (of_char c) - 48) \<le> digits_value (n * 10 + (int (of_char c) - 48)) cs"
    using Cons.prems \<open>48 \<le> int (of_char c)\<close> by (intro Cons.IH) auto
  ultimately show ?case by simp
qed

lemma MinsOfDay_range: "0 \<le> MinsOfDay s \<and> MinsOfDay s < 1440"
proof (cases "valid_HHMM s")
  case False
  then show ?thesis by (simp add: MinsOfDay_def)
next
  case True
  then obtain h1 h2 c m1 m2 where s: "s = [h1, h2, c, m1, m2]"
    by (auto simp add: valid_HHMM_def split: list.splits)
  from True s have d: "is_digit h1" "is_digit h2" "is_digit m1" "is_digit m2"
    and h: "digits_value 0 [h1, h2] < 24" and m: "digits_value 0 [m1, m2] < 60"
    by (simp_all add: valid_HHMM_def)
  have "0 \<le> digits_value 0 [h1, h2]" using d by (intro digits_value_mono) auto
  moreover have "0 \<le> digits_value 0 [m1, m2]" using d by (intro digits_value_mono) auto
  moreover have "MinsOfDay s = digits_value 0 [h1, h2] * 60 + digits_value 0 [m1, m2]"
    using True s by (simp add: MinsOfDay_def)
  ultimately show ?thesis using h m by linarith
qed

lemma parse_digits_nonpos: "fst (parse_digits True ds) \<le> 0"
  using digits_value_mono [of 0 ds]
  by (auto simp add: parse_digits_def Let_def MinInt64_def)

lemma parse_digits_minus: "CHR ''-'' \<in> set ds \<Longrightarrow> fst (parse_digits b ds) = 0"
proof -
  assume "CHR ''-'' \<in> set ds"
  moreover have "\<not> is_digit CHR ''-''" by (simp add: is_digit_def)
  ultimately have "\<not> list_all is_digit ds" by (auto simp add: list_all_iff)
  then show ?thesis by (simp add: parse_digits_def)
qed

lemma Atoi_minus: "CHR ''-'' \<in> set f \<Longrightarrow> fst (Atoi f) \<le> 0"
proof (cases f)
  case Nil
  then show ?thesis by (simp add: Atoi.simps)
next
  case (Cons c cs)
  assume m: "CHR ''-'' \<in> set f"
  show ?thesis
  proof (cases "c = CHR ''-''")
    case True
    then show ?thesis using Cons parse_digits_nonpos by (simp add: Atoi.simps)
  next
    case False
    then have "CHR ''-'' \<in> set cs" using m Cons by auto
    then show ?thesis using Cons False parse_digits_minus [of cs False]
        parse_digits_minus [of "c # cs" False] by (auto simp add: Atoi.simps)
  qed
qed

lemma Atoi_range: "fst (Atoi f) \<le> 9223372036854775807 \<and> - 9223372036854775808 \<le> fst (Atoi f)"
proof -
  have "\<And>b ds. fst (parse_digits b ds) \<le> 9223372036854775807 \<and> - 9223372036854775808 \<le> fst (parse_digits b ds)"
    subgoal for b ds
      using digits_value_mono [of 0 ds]
      by (auto simp add: parse_digits_def Let_def MaxInt64_def MinInt64_def)
    done
  then show ?thesis by (cases f) (auto simp add: Atoi.simps)
qed


lemma le_div_iff_int:
  fixes c n f :: int
  assumes "0 < f"
  shows "c \<le> n div f \<longleftrightarrow> c * f \<le> n"
proof
  assume "c \<le> n div f"
  then have "c * f \<le> (n div f) * f" using assms by (simp add: mult_right_mono)
  also have "\<dots> \<le> n" using assms by (metis add.commute div_mult_mod_eq le_add_same_cancel2 pos_mod_sign)
  finally show "c * f \<le> n" .
next
  assume a: "c * f \<le> n"
  show "c \<le> n div f"
  proof (rule ccontr)
    assume "\<not> c \<le> n div f"
    then have "n div f + 1 \<le> c" by simp
    then have "(n div f + 1) * f \<le> c * f" using assms by (simp add: mult_right_mono)
    moreover have "n < (n div f + 1) * f"
      using assms by (metis add.commute distrib_right div_mult_mod_eq add_strict_left_mono mult_1 pos_mod_bound)
    ultimately show False using a by linarith
  qed
qed

lemma small_product:
  fixes c f :: int
  assumes "1 \<le> f" "1 \<le> c" "(c - 1) * f < b" "0 \<le> b"
  shows "c = 1 \<or> (f < b \<and> c * f < 2 * b)"
proof (cases "c = 1")
  case True
  then show ?thesis by simp
next
  case False
  then have "1 \<le> c - 1" using assms(2) by simp
  then have "1 * f \<le> (c - 1) * f" using assms(1) by (intro mult_right_mono) auto
  then have "f < b" using assms(3) by simp
  moreover have "c * f = (c - 1) * f + f" by (simp add: algebra_simps)
  ultimately show ?thesis using assms(3) by simp
qed

lemma forward_loop_steps:
  assumes f: "1 \<le> f" and s: "0 \<le> s" "s < 1440" and nov: "s + f < 9223372036854775808"
  shows "1 \<le> c \<Longrightarrow> s + (c - 1) * f < 1440 \<Longrightarrow>
         forward_loop s f c ts = Some (ts @ map (\<lambda>k. s + k * f) [c..(1439 - s) div f])"
proof (induction "nat ((1439 - s) div f + 1 - c)" arbitrary: c ts)
  case 0
  then have "(1439 - s) div f < c" by simp
  then have "\<not> c * f \<le> 1439 - s" using le_div_iff_int [of f c "1439 - s"] f by simp
  then have ge: "1440 \<le> s + c * f" by simp
  have cf: "0 \<le> c * f" using f "0.prems"(1) by simp
  have "c = 1 \<or> (f < 1440 - s \<and> c * f < 2 * (1440 - s))"
    using small_product [of f c "1440 - s"] f "0.prems" s by simp
  then have "c * f < 9223372036854775808 - s" using nov s by auto
  then have "int64 (c * f) = c * f" "int64 (s + c * f) = s + c * f"
    using cf s by (simp_all add: int64_id)
  then show ?case
    using ge \<open>(1439 - s) div f < c\<close> by (subst forward_loop.simps) (simp add: Let_def)
next
  case (Suc n)
  then have le: "c \<le> (1439 - s) div f" by linarith
  then have "c * f \<le> 1439 - s" using le_div_iff_int [of f c "1439 - s"] f by simp
  then have lt: "s + c * f < 1440" by simp
  have cf: "0 \<le> c * f" using f Suc.prems(1) by simp
  have e: "int64 (c * f) = c * f" "int64 (s + c * f) = s + c * f"
    using cf s lt by (simp_all add: int64_id)
  have "c * 1 \<le> c * f" using f Suc.prems(1) by (intro mult_left_mono) auto
  then have "c < 1440" using lt s by simp
  then have c1: "int64 (c + 1) = c + 1" using Suc.prems(1) by (simp add: int64_id)
  have n: "n = nat ((1439 - s) div f + 1 - (c + 1))" using Suc.hyps(2) by linarith
  have "forward_loop s f (c + 1) (ts @ [s + c * f])
        = Some ((ts @ [s + c * f]) @ map (\<lambda>k. s + k * f) [c + 1..(1439 - s) div f])"
    using Suc.prems(1) lt by (intro Suc.hyps(1) [OF n]) simp_all
  moreover have "[c..(1439 - s) div f] = c # [c + 1..(1439 - s) div f]"
    using le by (rule upto_rec1)
  ultimately show ?case
    using e c1 lt by (subst forward_loop.simps) (simp add: Let_def)
qed

lemma backward_loop_steps:
  assumes f: "1 \<le> f" "f < 9223372036854775808" and s: "0 \<le> s" "s < 1440"
  shows "1 \<le> c \<Longrightarrow> 0 \<le> s - (c - 1) * f \<Longrightarrow>
         backward_loop s f c ts = Some (ts @ map (\<lambda>k. s - k * f) [c..s div f])"
proof (induction "nat (s div f + 1 - c)" arbitrary: c ts)
  case 0
  then have "s div f < c" by simp
  then have "\<not> c * f \<le> s" using le_div_iff_int [of f c s] f by simp
  then have lt: "s - c * f < 0" by simp
  have cf: "0 \<le> c * f" using f "0.prems"(1) by simp
  have "c = 1 \<or> (f < s + 1 \<and> c * f < 2 * (s + 1))"
    using small_product [of f c "s + 1"] f "0.prems" s by simp
  then have "c * f < 9223372036854775808" using f s by auto
  then have "int64 (c * f) = c * f" "int64 (s - c * f) = s - c * f"
    using cf s by (simp_all add: int64_id)
  then show ?case
    using lt \<open>s div f < c\<close> by (subst backward_loop.simps) (simp add: Let_def)
next
  case (Suc n)
  then have le: "c \<le> s div f" by linarith
  then have cs: "c * f \<le> s" using le_div_iff_int [of f c s] f by simp
  have cf: "0 \<le> c * f" using f Suc.prems(1) by simp
  have e: "int64 (c * f) = c * f" "int64 (s - c * f) = s - c * f"
    using cf s cs by (simp_all add: int64_id)
  have "c * 1 \<le> c * f" using f Suc.prems(1) by (intro mult_left_mono) auto
  then have "c < 1440" using cs s by simp
  then have c1: "int64 (c + 1) = c + 1" using Suc.prems(1) by (simp add: int64_id)
  have n: "n = nat (s div f + 1 - (c + 1))" using Suc.hyps(2) by linarith
  have "backward_loop s f (c + 1) (ts @ [s - c * f])
        = Some ((ts @ [s - c * f]) @ map (\<lambda>k. s - k * f) [c + 1..s div f])"
    using Suc.prems(1) cs by (intro Suc.hyps(1) [OF n]) simp_all
  moreover have "[c..s div f] = c # [c + 1..s div f]"
    using le by (rule upto_rec1)
  ultimately show ?case
    using e c1 cs by (subst backward_loop.simps) (simp add: Let_def)
qed

section \<open>The list a cache miss computes\<close>

lemma rev_map_backward:
  "0 \<le> n \<Longrightarrow> rev (map (\<lambda>k. s - k * f) [1..n]) = map (\<lambda>k. s + k * f) [- n..- 1]"
proof (induction "nat n" arbitrary: n)
  case 0
  then show ?case by simp
next
  case (Suc m)
  then have n: "1 \<le> n" and m: "m = nat (n - 1)" by linarith+
  have "[1..n] = [1..n - 1] @ [n]" using n by (rule upto_rec2)
  moreover have "[- n..- 1] = - n # [- n + 1..- 1]" using n by (intro upto_rec1) simp
  moreover have "rev (map (\<lambda>k. s - k * f) [1..n - 1]) = map (\<lambda>k. s + k * f) [- (n - 1)..- 1]"
    using n by (intro Suc.hyps(1) [OF m]) simp
  ultimately show ?case by simp
qed

lemma slots_split:
  assumes "1 \<le> f" "0 \<le> s" "s < 1440"
  shows "slots s f = rev (map (\<lambda>k. s - k * f) [1..s div f]) @ s # map (\<lambda>k. s + k * f) [1..(1439 - s) div f]"
proof -
  have a: "0 \<le> s div f" using assms by (simp add: pos_imp_zdiv_nonneg_iff)
  have b: "0 \<le> (1439 - s) div f" using assms by (simp add: pos_imp_zdiv_nonneg_iff)
  have "[- (s div f)..(1439 - s) div f] = [- (s div f)..0 - 1] @ 0 # [0 + 1..(1439 - s) div f]"
    using a b by (intro upto_split3) simp_all
  then show ?thesis using rev_map_backward [OF a, of s f] by (simp add: slots_def)
qed

lemma scheduledTimes_miss:
  assumes miss: "c (cacheKey ff ss) = None"
    and f: "1 \<le> fst (Atoi ff)"
    and nov: "MinsOfDay ss + fst (Atoi ff) \<le> 9223372036854775807"
  shows "scheduledTimes c ff ss =
           Some (slots (MinsOfDay ss) (fst (Atoi ff)),
                 c(cacheKey ff ss \<mapsto> slots (MinsOfDay ss) (fst (Atoi ff))))"
proof -
  let ?s = "MinsOfDay ss" and ?f = "fst (Atoi ff)"
  have s: "0 \<le> ?s" "?s < 1440" using MinsOfDay_range [of ss] by simp_all
  have f2: "?f < 9223372036854775808" using Atoi_range [of ff] by simp
  have fw: "forward_loop ?s ?f 1 [?s] = Some ([?s] @ map (\<lambda>k. ?s + k * ?f) [1..(1439 - ?s) div ?f])"
    using f s nov by (intro forward_loop_steps) simp_all
  have bw: "backward_loop ?s ?f 1 [] = Some ([] @ map (\<lambda>k. ?s - k * ?f) [1..?s div ?f])"
    using f f2 s by (intro backward_loop_steps) simp_all
  show ?thesis
    using miss fw bw slots_split [OF f s] by (simp add: scheduledTimes_def Let_def)
qed

lemma sorted_wrt_upto_less: "sorted_wrt (<) [i..j]"
proof (induction "nat (j - i + 1)" arbitrary: i)
  case 0
  then show ?case by simp
next
  case (Suc n)
  then have "i \<le> j" by linarith
  then have "[i..j] = i # [i + 1..j]" by (rule upto_rec1)
  moreover have "sorted_wrt (<) [i + 1..j]" using Suc.hyps(2) by (intro Suc.hyps(1)) linarith
  ultimately show ?case by simp
qed

lemma slots_sorted: "1 \<le> f \<Longrightarrow> sorted_wrt (<) (slots s f)"
proof -
  assume f: "1 \<le> f"
  have "sorted_wrt (\<lambda>x y. s + x * f < s + y * f) [- (s div f)..(1439 - s) div f]"
    using f by (intro sorted_wrt_mono_rel [OF _ sorted_wrt_upto_less]) (simp add: mult_strict_right_mono)
  then show ?thesis by (simp add: slots_def sorted_wrt_map)
qed

lemma slots_set:
  assumes "1 \<le> f"
  shows "m \<in> set (slots s f) \<longleftrightarrow> is_slot s f m"
proof
  assume "m \<in> set (slots s f)"
  then obtain k where k: "- (s div f) \<le> k" "k \<le> (1439 - s) div f" and m: "m = s + k * f"
    by (auto simp add: slots_def)
  have "k * f \<le> 1439 - s" using k(2) le_div_iff_int [of f k "1439 - s"] assms by simp
  moreover have "(- k) * f \<le> s" using k(1) le_div_iff_int [of f "- k" s] assms by simp
  ultimately show "is_slot s f m" using m by (simp add: is_slot_def)
next
  assume a: "is_slot s f m"
  then have "f dvd (m - s)" by (simp add: is_slot_def mod_eq_0_iff_dvd)
  then obtain k where k: "m - s = k * f" by (auto simp add: dvd_def mult.commute)
  from a k have "k * f \<le> 1439 - s" "(- k) * f \<le> s" by (simp_all add: is_slot_def)
  then have "k \<le> (1439 - s) div f" "- k \<le> s div f"
    using le_div_iff_int [of f k "1439 - s"] le_div_iff_int [of f "- k" s] assms by simp_all
  then have "k \<in> set [- (s div f)..(1439 - s) div f]" by simp
  moreover have "m = s + k * f" using k by simp
  ultimately show "m \<in> set (slots s f)" unfolding slots_def set_map by (rule image_eqI [rotated])
qed

lemma slots_length:
  assumes "1 \<le> f" "0 \<le> s" "s < 1440"
  shows "int (length (slots s f)) = (1439 - s mod f) div f + 1"
proof -
  have a: "0 \<le> s div f" using assms by (simp add: pos_imp_zdiv_nonneg_iff)
  have b: "0 \<le> (1439 - s) div f" using assms by (simp add: pos_imp_zdiv_nonneg_iff)
  have e: "1439 - s mod f = (1439 - s) + (s div f) * f"
    using div_mult_mod_eq [of s f] by linarith
  have "(1439 - s mod f) div f = ((1439 - s) + (s div f) * f) div f"
    by (simp only: e)
  also have "\<dots> = (1439 - s) div f + s div f"
    using assms(1) div_mult_self1 [of f "1439 - s" "s div f"] by simp
  finally have "(1439 - s mod f) div f = (1439 - s) div f + s div f" .
  moreover have "int (length (slots s f)) = (1439 - s) div f + s div f + 1"
    using a b by (simp add: slots_def)
  ultimately show ?thesis by simp
qed

lemma slots_length_ceiling:
  assumes "1 \<le> f" "0 \<le> s" "s < 1440"
  shows "int (length (slots s f)) = (1440 + f - 1) div f
         \<or> int (length (slots s f)) = (1440 + f - 1) div f - 1"
proof -
  have r: "0 \<le> s mod f" "s mod f < f" using assms(1) by simp_all
  have c: "(1440 + f - 1) div f = 1439 div f + 1"
    using assms(1) by (simp add: div_add_self2 flip: add_diff_eq diff_add_eq)
  have "1439 - f \<le> 1439 - s mod f" "1439 - s mod f \<le> 1439" using r by simp_all
  then have "(1439 - f) div f \<le> (1439 - s mod f) div f" "(1439 - s mod f) div f \<le> 1439 div f"
    using assms(1) by (simp_all add: zdiv_mono1)
  moreover have "(1439 - f) div f = 1439 div f - 1"
    using assms(1) div_add_self2 [of f "1439 - f"] by simp
  ultimately show ?thesis using slots_length [OF assms] c by linarith
qed

section \<open>What the cache holds\<close>

lemma cacheKey_inj:
  assumes "CHR ''-'' \<notin> set f" "CHR ''-'' \<notin> set s" "cacheKey f' s' = cacheKey f s"
  shows "f' = f \<and> s' = s"
proof -
  from assms(3) have e: "f' @ CHR ''-'' # s' = f @ CHR ''-'' # s" by (simp add: cacheKey_def)
  then obtain us where "(f' = f @ us \<and> us @ CHR ''-'' # s' = CHR ''-'' # s)
                      \<or> (f' @ us = f \<and> CHR ''-'' # s' = us @ CHR ''-'' # s)"
    by (auto simp add: append_eq_append_conv2)
  then show ?thesis
  proof
    assume a: "f' = f @ us \<and> us @ CHR ''-'' # s' = CHR ''-'' # s"
    show ?thesis
    proof (cases us)
      case Nil
      then show ?thesis using a by simp
    next
      case (Cons u us')
      then have "s = us' @ CHR ''-'' # s'" using a by simp
      then show ?thesis using assms(2) by simp
    qed
  next
    assume a: "f' @ us = f \<and> CHR ''-'' # s' = us @ CHR ''-'' # s"
    show ?thesis
    proof (cases us)
      case Nil
      then show ?thesis using a by simp
    next
      case (Cons u us')
      then have "u = CHR ''-''" using a by simp
      then have "CHR ''-'' \<in> set f" using a Cons by auto
      then show ?thesis using assms(1) by simp
    qed
  qed
qed

lemma valid_HHMM_no_minus: "valid_HHMM s \<Longrightarrow> CHR ''-'' \<notin> set s"
proof -
  assume v: "valid_HHMM s"
  then obtain h1 h2 c m1 m2 where s: "s = [h1, h2, c, m1, m2]"
    by (auto simp add: valid_HHMM_def split: list.splits)
  have "\<not> is_digit CHR ''-''" by (simp add: is_digit_def)
  then show ?thesis using v s by (auto simp add: valid_HHMM_def)
qed

lemma scheduledTimes_hit:
  "c (cacheKey f s) = Some ts \<Longrightarrow> scheduledTimes c f s = Some (ts, c)"
  by (simp add: scheduledTimes_def)

lemma scheduledTimes_miss_computed:
  "c (cacheKey f s) = None \<Longrightarrow>
   scheduledTimes c f s =
     (case computed f s of None \<Rightarrow> None | Some ts \<Rightarrow> Some (ts, c(cacheKey f s \<mapsto> ts)))"
  by (simp add: scheduledTimes_def computed_def Let_def split: option.splits)

lemma cache_reachable_entries:
  "cache_reachable c \<Longrightarrow> c k = Some ts \<Longrightarrow> \<exists>f s. cacheKey f s = k \<and> computed f s = Some ts"
proof (induction arbitrary: k ts rule: cache_reachable.induct)
  case init
  then show ?case by simp
next
  case (call c f s ts' c')
  show ?case
  proof (cases "c (cacheKey f s)")
    case (Some cached)
    then have "c' = c" using call.hyps(2) by (simp add: scheduledTimes_hit)
    then show ?thesis using call.IH call.prems by simp
  next
    case None
    then have r: "computed f s = Some ts'" "c' = c(cacheKey f s \<mapsto> ts')"
      using call.hyps(2) by (auto simp add: scheduledTimes_miss_computed split: option.splits)
    show ?thesis
    proof (cases "k = cacheKey f s")
      case True
      then show ?thesis using r call.prems by auto
    next
      case False
      then show ?thesis using r call.IH call.prems by simp
    qed
  qed
qed

lemma scheduledTimes_reachable:
  assumes "cache_reachable c" "CHR ''-'' \<notin> set f" "CHR ''-'' \<notin> set s"
  shows "scheduledTimes c f s =
           (case computed f s of None \<Rightarrow> None
            | Some ts \<Rightarrow> Some (ts, if c (cacheKey f s) = None then c(cacheKey f s \<mapsto> ts) else c))"
proof (cases "c (cacheKey f s)")
  case None
  then show ?thesis by (simp add: scheduledTimes_miss_computed split: option.splits)
next
  case (Some ts)
  then obtain f' s' where "cacheKey f' s' = cacheKey f s" "computed f' s' = Some ts"
    using cache_reachable_entries [OF assms(1)] by blast
  then have "computed f s = Some ts" using cacheKey_inj [OF assms(2,3)] by blast
  then show ?thesis using Some by (simp add: scheduledTimes_hit)
qed

lemma computed_normal:
  assumes "1 \<le> fst (Atoi ff)" "MinsOfDay ss + fst (Atoi ff) \<le> 9223372036854775807"
  shows "computed ff ss = Some (slots (MinsOfDay ss) (fst (Atoi ff)))"
  using scheduledTimes_miss [of Map.empty ff ss, OF _ assms] by (simp add: computed_def)

lemma forward_loop_zero:
  assumes "- 9223372036854775808 \<le> s" "s < 1440"
  shows "forward_loop s 0 c ts = None"
proof (rule ccontr)
  assume "forward_loop s 0 c ts \<noteq> None"
  then obtain y where y: "forward_loop s 0 c ts = Some y" by auto
  have "\<not> ((0::int) = 0 \<and> - 9223372036854775808 \<le> s \<and> s < 1440)"
  proof (rule forward_loop.raw_induct
      [where P = "\<lambda>s f c ts y. \<not> (f = 0 \<and> - 9223372036854775808 \<le> s \<and> s < 1440)", OF _ y])
    fix loop :: "int \<Rightarrow> int \<Rightarrow> int \<Rightarrow> int list \<Rightarrow> int list option"
    fix s f c :: int and ts y :: "int list"
    assume IH: "\<And>s f c ts y. loop s f c ts = Some y
                  \<Longrightarrow> \<not> (f = 0 \<and> - 9223372036854775808 \<le> s \<and> s < 1440)"
      and step: "(let mins = int64 (s + int64 (c * f)) in
                  if 1440 \<le> mins then Some ts else loop s f (int64 (c + 1)) (ts @ [mins])) = Some y"
    show "\<not> (f = 0 \<and> - 9223372036854775808 \<le> s \<and> s < 1440)"
    proof
      assume a: "f = 0 \<and> - 9223372036854775808 \<le> s \<and> s < 1440"
      then have "int64 (s + int64 (c * f)) = s" by (simp add: int64_id)
      then have "loop s f (int64 (c + 1)) (ts @ [s]) = Some y"
        using step a by (simp add: Let_def)
      then show False using IH a by blast
    qed
  qed
  then show False using assms by simp
qed

lemma computed_zero: "fst (Atoi ff) = 0 \<Longrightarrow> computed ff ss = None"
  using forward_loop_zero [of "MinsOfDay ss"] MinsOfDay_range [of ss]
  by (simp add: computed_def scheduledTimes_def Let_def)

section \<open>A frequency close to the largest integer\<close>

lemma int64_mult_near_max:
  assumes d: "1 \<le> d" "d \<le> 1439" and c: "1 \<le> c" "c \<le> 1441"
  shows "int64 (c * (9223372036854775808 - d)) =
           (if even c then - (c * d) else 9223372036854775808 - c * d)"
proof -
  have lo: "1 \<le> c * d" using d(1) c(1) by (metis mult_mono mult_1 zero_le_one order_trans)
  have "c * d \<le> 1441 * 1439" using d c by (intro mult_mono) simp_all
  then have hi: "c * d \<le> 2073599" by simp
  show ?thesis
  proof (cases "even c")
    case True
    then obtain j where j: "c = 2 * j" by (auto elim: evenE)
    have "c * (9223372036854775808 - d) = - (c * d) + j * 18446744073709551616"
      using j by (simp add: algebra_simps)
    then have "int64 (c * (9223372036854775808 - d)) = - (c * d)"
      using lo hi by (intro int64_eqI [where k = j]) simp_all
    then show ?thesis using True by simp
  next
    case False
    then obtain j where j: "c = 2 * j + 1" by (auto elim: oddE)
    have "c * (9223372036854775808 - d) = (9223372036854775808 - c * d) + j * 18446744073709551616"
      using j by (simp add: algebra_simps)
    then have "int64 (c * (9223372036854775808 - d)) = 9223372036854775808 - c * d"
      using lo hi by (intro int64_eqI [where k = j]) simp_all
    then show ?thesis using False by simp
  qed
qed

lemma forward_loop_overflow:
  assumes d: "1 \<le> d" "d \<le> s" and s: "s < 1440"
  shows "1 \<le> c \<Longrightarrow> c \<le> 1441 \<Longrightarrow>
         \<exists>ex. forward_loop s (9223372036854775808 - d) c ts = Some (ts @ ex) \<and> (\<forall>m\<in>set ex. m < s)"
proof (induction "nat (1441 - c)" arbitrary: c ts)
  case 0
  then have c: "c = 1441" by simp
  have "int64 (c * (9223372036854775808 - d)) = 9223372036854775808 - c * d"
    using int64_mult_near_max [of d c] d s c by simp
  moreover have "int64 (s + (9223372036854775808 - c * d)) = s + (9223372036854775808 - c * d)"
    using d s c by (intro int64_id) simp_all
  moreover have "1440 \<le> s + (9223372036854775808 - c * d)" using d s c by simp
  ultimately have "forward_loop s (9223372036854775808 - d) c ts = Some ts"
    by (subst forward_loop.simps) (simp add: Let_def)
  then show ?case by simp
next
  case (Suc n)
  then have c: "1 \<le> c" "c \<le> 1440" by linarith+
  have lo: "1 \<le> c * d" using d(1) c(1) by (metis mult_mono mult_1 zero_le_one order_trans)
  have "c * d \<le> 1440 * 1439" using d s c by (intro mult_mono) simp_all
  then have hi: "c * d \<le> 2072160" by simp
  have c1: "int64 (c + 1) = c + 1" using c by (simp add: int64_id)
  have n: "n = nat (1441 - (c + 1))" using Suc.hyps(2) by linarith
  have IH: "\<And>ts'. \<exists>ex. forward_loop s (9223372036854775808 - d) (c + 1) ts' = Some (ts' @ ex)
                      \<and> (\<forall>m\<in>set ex. m < s)"
    using c by (intro Suc.hyps(1) [OF n]) simp_all
  have m: "int64 (c * (9223372036854775808 - d)) =
           (if even c then - (c * d) else 9223372036854775808 - c * d)"
    using int64_mult_near_max [of d c] d s c by simp
  consider (even) "even c" | (wrap) "odd c" "c * d \<le> s" | (leave) "odd c" "s < c * d"
    by linarith
  then show ?case
  proof cases
    case even
    have "int64 (s + - (c * d)) = s - c * d" using lo hi d s by (simp add: int64_id)
    then have mins: "int64 (s + int64 (c * (9223372036854775808 - d))) = s - c * d"
      using m even by simp
    obtain ex where ex: "forward_loop s (9223372036854775808 - d) (c + 1) (ts @ [s - c * d])
                           = Some ((ts @ [s - c * d]) @ ex)" "\<forall>m\<in>set ex. m < s"
      using IH by blast
    have "forward_loop s (9223372036854775808 - d) c ts = Some (ts @ (s - c * d) # ex)"
      using mins c1 ex(1) lo s by (subst forward_loop.simps) (simp add: Let_def)
    moreover have "\<forall>m\<in>set ((s - c * d) # ex). m < s" using ex(2) lo by simp
    ultimately show ?thesis by blast
  next
    case wrap
    have "int64 (s + (9223372036854775808 - c * d)) = s - c * d - 9223372036854775808"
      using wrap(2) s lo by (intro int64_eqI [where k = 1]) simp_all
    then have mins: "int64 (s + int64 (c * (9223372036854775808 - d)))
                     = s - c * d - 9223372036854775808"
      using m wrap(1) by simp
    obtain ex where ex: "forward_loop s (9223372036854775808 - d) (c + 1)
                           (ts @ [s - c * d - 9223372036854775808])
                           = Some ((ts @ [s - c * d - 9223372036854775808]) @ ex)"
                        "\<forall>m\<in>set ex. m < s"
      using IH by blast
    have "forward_loop s (9223372036854775808 - d) c ts
            = Some (ts @ (s - c * d - 9223372036854775808) # ex)"
      using mins c1 ex(1) lo s by (subst forward_loop.simps) (simp add: Let_def)
    moreover have "\<forall>m\<in>set ((s - c * d - 9223372036854775808) # ex). m < s" using ex(2) lo by simp
    ultimately show ?thesis by blast
  next
    case leave
    have "int64 (s + (9223372036854775808 - c * d)) = s + (9223372036854775808 - c * d)"
      using leave(2) hi d s by (intro int64_id) simp_all
    then have mins: "int64 (s + int64 (c * (9223372036854775808 - d)))
                     = s + (9223372036854775808 - c * d)"
      using m leave(1) by simp
    have "1440 \<le> s + (9223372036854775808 - c * d)" using hi d s by simp
    then have "forward_loop s (9223372036854775808 - d) c ts = Some ts"
      using mins by (subst forward_loop.simps) (simp add: Let_def)
    then show ?thesis by simp
  qed
qed

lemma backward_loop_overflow:
  assumes "0 \<le> s" "s < 1440" "9223372036854775808 - 1439 \<le> f" "f < 9223372036854775808"
  shows "backward_loop s f 1 [] = Some []"
proof -
  have "int64 (1 * f) = f" using assms by (simp add: int64_id)
  moreover have "int64 (s - f) = s - f" using assms by (simp add: int64_id)
  moreover have "s - f < 0" using assms by simp
  ultimately show ?thesis by (subst backward_loop.simps) (simp add: Let_def)
qed

lemma computed_overflow:
  assumes f: "1 \<le> fst (Atoi ff)"
    and ov: "9223372036854775807 < MinsOfDay ss + fst (Atoi ff)"
  shows "\<exists>ex. computed ff ss = Some (MinsOfDay ss # ex) \<and> (\<forall>m\<in>set ex. m < MinsOfDay ss)"
proof -
  let ?s = "MinsOfDay ss" and ?f = "fst (Atoi ff)"
  define d where "d = 9223372036854775808 - ?f"
  have s: "0 \<le> ?s" "?s < 1440" using MinsOfDay_range [of ss] by simp_all
  have f2: "?f < 9223372036854775808" using Atoi_range [of ff] by simp
  have d: "1 \<le> d" "d \<le> ?s" using f2 ov by (simp_all add: d_def)
  have fd: "?f = 9223372036854775808 - d" by (simp add: d_def)
  obtain ex where ex: "forward_loop ?s (9223372036854775808 - d) 1 [?s] = Some ([?s] @ ex)"
      "\<forall>m\<in>set ex. m < ?s"
    using forward_loop_overflow [OF d s(2), of 1 "[?s]"] by auto
  have bw: "backward_loop ?s ?f 1 [] = Some []"
    using s f2 ov by (intro backward_loop_overflow) simp_all
  have "computed ff ss = Some (?s # ex)"
    using ex(1) bw fd by (simp add: computed_def scheduledTimes_def Let_def)
  then show ?thesis using ex(2) by blast
qed

lemma computed_returns:
  "1 \<le> fst (Atoi ff) \<Longrightarrow> \<exists>ts. computed ff ss = Some ts"
  using computed_normal [of ff ss] computed_overflow [of ff ss]
  by (cases "MinsOfDay ss + fst (Atoi ff) \<le> 9223372036854775807") auto

section \<open>Instants, days and minutes\<close>

lemma currMins_eq: "Hour t * 60 + Minute t = (t mod Nanos_Day) div Nanos_Minute"
proof -
  let ?a = "t div 60000000000"
  have h: "t div 3600000000000 = ?a div 60"
    using zdiv_zmult2_eq [of 60 t 60000000000] by simp
  have "t mod 86400000000000 = 60000000000 * (?a mod 1440) + t mod 60000000000"
    using zmod_zmult2_eq [of 1440 t 60000000000] by simp
  then have "(t mod 86400000000000) div 60000000000
             = (60000000000 * (?a mod 1440) + t mod 60000000000) div 60000000000"
    by (simp only:)
  also have "\<dots> = ?a mod 1440" by simp
  finally have e: "(t mod Nanos_Day) div Nanos_Minute = ?a mod 1440"
    by (simp only: Nanos_Day_def Nanos_Minute_def)
  have m: "?a mod 1440 = 60 * (?a div 60 mod 24) + ?a mod 60"
    using zmod_zmult2_eq [of 24 ?a 60] by simp
  have "Hour t * 60 + Minute t = (?a div 60 mod 24) * 60 + ?a mod 60"
    by (simp only: Hour_def Minute_def Nanos_Hour_def Nanos_Minute_def h)
  then show ?thesis using e m by linarith
qed

lemma GetElapsedMinsInThisDay_eq:
  "GetElapsedMinsInThisDay t = (t mod Nanos_Day) div Nanos_Minute"
  by (simp add: GetElapsedMinsInThisDay_def currMins_eq)

lemma time_split:
  "t = StartOfDay t + GetElapsedMinsInThisDay t * Nanos_Minute + t mod Nanos_Minute
   \<and> 0 \<le> GetElapsedMinsInThisDay t \<and> GetElapsedMinsInThisDay t < 1440
   \<and> 0 \<le> t mod Nanos_Minute \<and> t mod Nanos_Minute < Nanos_Minute
   \<and> StartOfDay t mod Nanos_Day = 0"
proof -
  let ?r = "t mod 86400000000000"
  have r: "0 \<le> ?r" "?r < 86400000000000" by simp_all
  have "?r mod 60000000000 = t mod 60000000000"
    by (rule mod_mod_cancel) simp
  then have "?r = (?r div 60000000000) * 60000000000 + t mod 60000000000"
    using div_mult_mod_eq [of ?r 60000000000] by simp
  moreover have "0 \<le> ?r div 60000000000" using r by simp
  moreover have "?r div 60000000000 < 1440" using r by simp
  moreover have "(t - ?r) mod 86400000000000 = 0" by (simp add: minus_mod_eq_mult_div)
  ultimately show ?thesis
    by (simp add: GetElapsedMinsInThisDay_eq StartOfDay_def Nanos_Day_def Nanos_Minute_def)
qed

lemma time_join:
  assumes "d mod Nanos_Day = 0" "0 \<le> x" "x < 1440" "0 \<le> r" "r < Nanos_Minute"
  shows "StartOfDay (d + x * Nanos_Minute + r) = d"
    and "GetElapsedMinsInThisDay (d + x * Nanos_Minute + r) = x"
    and "(d + x * Nanos_Minute + r) mod Nanos_Minute = r"
proof -
  let ?y = "x * 60000000000 + r"
  have r: "0 \<le> r" "r < 60000000000" using assms by (simp_all add: Nanos_Minute_def)
  have y: "0 \<le> ?y" "?y < 86400000000000" using assms(2,3) r by simp_all
  have d: "d mod 86400000000000 = 0" using assms(1) by (simp add: Nanos_Day_def)
  have "(d + ?y) mod 86400000000000 = ?y mod 86400000000000"
    using mod_add_left_eq [of d 86400000000000 ?y] d by simp
  then have m: "(d + ?y) mod 86400000000000 = ?y" using y by simp
  have "?y div 60000000000 = x" using r by simp
  then show "StartOfDay (d + x * Nanos_Minute + r) = d"
    and "GetElapsedMinsInThisDay (d + x * Nanos_Minute + r) = x"
    using m by (simp_all add: GetElapsedMinsInThisDay_eq StartOfDay_def Nanos_Day_def
        Nanos_Minute_def add.assoc)
  have "d mod 60000000000 = d mod 86400000000000 mod 60000000000"
    by (rule mod_mod_cancel [symmetric]) simp
  then have "d mod 60000000000 = 0" using d by simp
  then have "(d + ?y) mod 60000000000 = ?y mod 60000000000"
    using mod_add_left_eq [of d 60000000000 ?y] by simp
  moreover have "?y mod 60000000000 = r" using r by simp
  ultimately show "(d + x * Nanos_Minute + r) mod Nanos_Minute = r"
    by (simp add: Nanos_Minute_def add.assoc)
qed

section \<open>The position loop\<close>

lemma pos_loop_sorted:
  assumes "sorted_wrt (<) ts" "ts \<noteq> []" "n = idx + length ts"
  shows "int idx - 1 \<le> pos_loop m n ts idx pos \<and> pos_loop m n ts idx pos < int n
         \<and> (\<forall>j<length ts. ts ! j \<le> m \<longleftrightarrow> int idx + int j \<le> pos_loop m n ts idx pos)"
  using assms
proof (induction ts arbitrary: idx pos)
  case Nil
  then show ?case by simp
next
  case (Cons t rest)
  show ?case
  proof (cases "t \<le> m")
    case False
    have "\<forall>j<length (t # rest). \<not> (t # rest) ! j \<le> m"
    proof (intro allI impI)
      fix j assume "j < length (t # rest)"
      then have "(t # rest) ! j \<in> set (t # rest)" by (rule nth_mem)
      then have "t \<le> (t # rest) ! j" using Cons.prems(1) by auto
      then show "\<not> (t # rest) ! j \<le> m" using False by simp
    qed
    then show ?thesis using False Cons.prems(3) by simp
  next
    case True
    show ?thesis
    proof (cases "rest = []")
      case True
      then show ?thesis using \<open>t \<le> m\<close> Cons.prems(3) by simp
    next
      case False
      define pos' where "pos' = (if int idx = int n - 1 then int idx else pos)"
      define p where "p = pos_loop m n rest (Suc idx) pos'"
      have IH: "int (Suc idx) - 1 \<le> p \<and> p < int n
                \<and> (\<forall>j<length rest. rest ! j \<le> m \<longleftrightarrow> int (Suc idx) + int j \<le> p)"
        unfolding p_def using Cons.prems False by (intro Cons.IH) simp_all
      have p: "pos_loop m n (t # rest) idx pos = p" using True by (simp add: p_def pos'_def)
      have "(t # rest) ! j \<le> m \<longleftrightarrow> int idx + int j \<le> p" if "j < length (t # rest)" for j
      proof (cases j)
        case 0
        then show ?thesis using True IH by simp
      next
        case (Suc j')
        then have "j' < length rest" using that by simp
        then have "rest ! j' \<le> m \<longleftrightarrow> int (Suc idx) + int j' \<le> p" using IH by blast
        moreover have "int idx + int (Suc j') = int (Suc idx) + int j'" by simp
        ultimately show ?thesis using Suc by (simp only: nth_Cons_Suc)
      qed
      then show ?thesis using IH p by simp
    qed
  qed
qed

lemma pos_loop_all_le:
  "\<forall>x\<in>set ts. x \<le> m \<Longrightarrow> ts \<noteq> [] \<Longrightarrow> n = idx + length ts
   \<Longrightarrow> pos_loop m n ts idx pos = int n - 1"
proof (induction ts arbitrary: idx pos)
  case Nil
  then show ?case by simp
next
  case (Cons t rest)
  then show ?case by (cases "rest = []") simp_all
qed

section \<open>Ordering instants by day and minute\<close>

lemma days_order:
  assumes d: "d1 mod Nanos_Day = 0" "d2 mod Nanos_Day = 0"
    and x: "0 \<le> x1" "x2 < 1440" and r: "0 \<le> r1" "r2 < Nanos_Minute"
    and le: "d1 + x1 * Nanos_Minute + r1 \<le> d2 + x2 * Nanos_Minute + r2"
  shows "d1 + Nanos_Day \<le> d2 \<or> (d1 = d2 \<and> x1 * Nanos_Minute + r1 \<le> x2 * Nanos_Minute + r2)"
proof -
  obtain a where a: "d1 = 86400000000000 * a"
    using d(1) by (auto simp add: Nanos_Day_def mod_eq_0_iff_dvd)
  obtain b where b: "d2 = 86400000000000 * b"
    using d(2) by (auto simp add: Nanos_Day_def mod_eq_0_iff_dvd)
  have "86400000000000 * a < 86400000000000 * b + 86400000000000"
    using le x r a b by (simp add: Nanos_Minute_def)
  then have "a < b + 1" by simp
  then have "a + 1 \<le> b \<or> a = b" by linarith
  then show ?thesis using a b le by (auto simp add: Nanos_Day_def)
qed

lemma minutes_order:
  fixes x1 x2 r1 r2 :: int
  assumes "x1 * Nanos_Minute + r1 \<le> x2 * Nanos_Minute + r2" "0 \<le> r1" "r2 < Nanos_Minute"
  shows "x1 \<le> x2"
  using assms by (simp add: Nanos_Minute_def)

lemma pos_loop_prev:
  assumes "sorted_wrt (<) all" "all \<noteq> []"
  shows "(pos_loop m (length all) all 0 0 < 0 \<and> (\<forall>x\<in>set all. m < x))
       \<or> (0 \<le> pos_loop m (length all) all 0 0
           \<and> nat (pos_loop m (length all) all 0 0) < length all
           \<and> all ! nat (pos_loop m (length all) all 0 0) \<le> m
           \<and> (\<forall>x\<in>set all. x \<le> m \<longrightarrow> x \<le> all ! nat (pos_loop m (length all) all 0 0)))"
proof -
  define p where "p = pos_loop m (length all) all 0 0"
  have c: "int 0 - 1 \<le> p \<and> p < int (length all)
           \<and> (\<forall>j<length all. all ! j \<le> m \<longleftrightarrow> int 0 + int j \<le> p)"
    unfolding p_def using assms by (intro pos_loop_sorted) simp_all
  show ?thesis
  proof (cases "p < 0")
    case True
    have "m < x" if h: "x \<in> set all" for x
    proof -
      obtain j where "j < length all" "x = all ! j" using h by (auto simp add: in_set_conv_nth)
      then show ?thesis using c True by auto
    qed
    then show ?thesis using True by (simp add: p_def)
  next
    case False
    then have p0: "0 \<le> p" by simp
    have "p < int (length all)" using c by blast
    then have p: "0 \<le> p" "nat p < length all" using p0 by linarith+
    have "all ! nat p \<le> m \<longleftrightarrow> int 0 + int (nat p) \<le> p" using c p(2) by blast
    then have le: "all ! nat p \<le> m" using p0 by simp
    have "x \<le> all ! nat p" if h: "x \<in> set all" "x \<le> m" for x
    proof -
      obtain j where j: "j < length all" "x = all ! j" using h(1) by (auto simp add: in_set_conv_nth)
      then have "int j \<le> p" using c h(2) by auto
      then have "j \<le> nat p" by simp
      then have "j = nat p \<or> j < nat p" by linarith
      then show ?thesis
      proof
        assume "j = nat p" then show ?thesis using j by simp
      next
        assume "j < nat p"
        then have "all ! j < all ! nat p" using assms(1) p(2) by (simp add: sorted_wrt_nth_less)
        then show ?thesis using j by simp
      qed
    qed
    then show ?thesis using p le by (simp add: p_def)
  qed
qed

lemma sorted_le_last:
  fixes xs :: "int list"
  assumes "sorted_wrt (<) xs" "x \<in> set xs"
  shows "x \<le> last xs"
proof -
  have ne: "xs \<noteq> []" using assms(2) by auto
  obtain j where j: "j < length xs" "x = xs ! j" using assms(2) by (auto simp add: in_set_conv_nth)
  have l: "last xs = xs ! (length xs - 1)" using ne by (rule last_conv_nth)
  have "j = length xs - 1 \<or> j < length xs - 1" using j(1) by linarith
  then show ?thesis
  proof
    assume "j = length xs - 1" then show ?thesis using j l by simp
  next
    assume "j < length xs - 1"
    then have "xs ! j < xs ! (length xs - 1)" using assms(1) ne by (simp add: sorted_wrt_nth_less)
    then show ?thesis using j l by simp
  qed
qed

lemma index_last: "xs \<noteq> [] \<Longrightarrow> index xs (int (length xs) - 1) = Inr (last xs)"
  by (cases xs) (simp_all add: index_def last_conv_nth nat_diff_distrib')

lemma index_nth: "0 \<le> i \<Longrightarrow> nat i < length xs \<Longrightarrow> index xs i = Inr (xs ! nat i)"
  by (simp add: index_def)

lemma int64_minute: "0 \<le> x \<Longrightarrow> x < 1440 \<Longrightarrow> int64 (Nanos_Minute * x) = Nanos_Minute * x"
  by (intro int64_id) (simp_all add: Nanos_Minute_def)

lemma int64_minus_day: "int64 (Nanos_Hour * (- 24)) = - Nanos_Day"
  by (simp add: int64_def Nanos_Hour_def Nanos_Day_def)

section \<open>The previous scheduled time over a sorted list\<close>

lemma prevScheduledTime_unfold:
  assumes "scheduledTimes c f s = Some (all, c')"
  shows "prevScheduledTime c f s currTime =
           (if pos_loop (GetElapsedMinsInThisDay currTime) (length all) all 0 0 < 0 then
              (case index all (int (length all) - 1) of
                 Inl p \<Rightarrow> Some (Inl p)
               | Inr t \<Rightarrow> Some (Inr (StartOfDay currTime + int64 (Nanos_Hour * (- 24))
                                       + int64 (Nanos_Minute * t), c')))
            else
              (case index all (pos_loop (GetElapsedMinsInThisDay currTime) (length all) all 0 0) of
                 Inl p \<Rightarrow> Some (Inl p)
               | Inr t \<Rightarrow> Some (Inr (StartOfDay currTime + int64 (Nanos_Minute * t), c'))))"
  using assms
  by (simp add: prevScheduledTime_def Let_def GetElapsedMinsInThisDay_def Add_def
      split: sum.splits)

lemma prevScheduledTime_sorted:
  assumes st: "scheduledTimes c f s = Some (all, c')"
    and sorted: "sorted_wrt (<) all" and ne: "all \<noteq> []"
    and range: "\<forall>x\<in>set all. 0 \<le> x \<and> x < 1440"
  shows "\<exists>p. prevScheduledTime c f s currTime = Some (Inr (p, c'))
           \<and> p mod Nanos_Minute = 0 \<and> GetElapsedMinsInThisDay p \<in> set all \<and> p \<le> currTime
           \<and> (\<forall>u. u mod Nanos_Minute = 0 \<and> GetElapsedMinsInThisDay u \<in> set all \<and> u \<le> currTime
                  \<longrightarrow> u \<le> p)
           \<and> (GetElapsedMinsInThisDay currTime \<in> set all
                  \<longrightarrow> p = StartOfDay currTime + GetElapsedMinsInThisDay currTime * Nanos_Minute)
           \<and> ((\<forall>x\<in>set all. GetElapsedMinsInThisDay currTime < x)
                  \<longrightarrow> p = StartOfDay currTime - Nanos_Day + last all * Nanos_Minute)"
proof -
  define m where "m = GetElapsedMinsInThisDay currTime"
  define d where "d = StartOfDay currTime"
  define r where "r = currTime mod Nanos_Minute"
  define pos where "pos = pos_loop m (length all) all 0 0"
  have currTime: "currTime = d + m * Nanos_Minute + r" and m: "0 \<le> m" "m < 1440"
    and r: "0 \<le> r" "r < Nanos_Minute" and d: "d mod Nanos_Day = 0"
    using time_split [of currTime] by (simp_all add: m_def d_def r_def)
  have split_u: "u = StartOfDay u + GetElapsedMinsInThisDay u * Nanos_Minute
                 \<and> StartOfDay u mod Nanos_Day = 0
                 \<and> 0 \<le> GetElapsedMinsInThisDay u \<and> GetElapsedMinsInThisDay u < 1440"
    if "u mod Nanos_Minute = 0" for u
    using time_split [of u] that by simp
  have order: "StartOfDay u + Nanos_Day \<le> d \<or> (StartOfDay u = d \<and> GetElapsedMinsInThisDay u \<le> m)"
    if u: "u mod Nanos_Minute = 0" "u \<le> currTime" for u
  proof -
    have "StartOfDay u + GetElapsedMinsInThisDay u * Nanos_Minute + 0 \<le> d + m * Nanos_Minute + r"
      using split_u [OF u(1)] u(2) currTime by simp
    then have "StartOfDay u + Nanos_Day \<le> d
               \<or> (StartOfDay u = d \<and> GetElapsedMinsInThisDay u * Nanos_Minute + 0 \<le> m * Nanos_Minute + r)"
      using split_u [OF u(1)] d m r by (intro days_order) simp_all
    then show ?thesis using minutes_order [of "GetElapsedMinsInThisDay u" 0 m r] r by auto
  qed
  have z: "(0::int) \<le> 0" "(0::int) < Nanos_Minute" by (simp_all add: Nanos_Minute_def)
  consider (before) "pos < 0" "\<forall>x\<in>set all. m < x"
    | (found) "0 \<le> pos" "nat pos < length all" "all ! nat pos \<le> m"
        "\<forall>x\<in>set all. x \<le> m \<longrightarrow> x \<le> all ! nat pos"
    using pos_loop_prev [OF sorted ne, of m] unfolding pos_def by blast
  then show ?thesis
  proof cases
    case before
    define L where "L = last all"
    have L: "L \<in> set all" "0 \<le> L" "L < 1440" using ne range by (simp_all add: L_def)
    define p where "p = d - Nanos_Day + L * Nanos_Minute + 0"
    have dm: "(d - Nanos_Day) mod Nanos_Day = 0" using d by (simp add: mod_diff_left_eq [symmetric])
    have pj: "StartOfDay p = d - Nanos_Day" "GetElapsedMinsInThisDay p = L" "p mod Nanos_Minute = 0"
      using time_join [OF dm L(2,3) z] by (simp_all add: p_def)
    have e1: "int64 (- (Nanos_Hour * 24)) = - Nanos_Day" using int64_minus_day by simp
    have e2: "int64 (L * Nanos_Minute) = L * Nanos_Minute"
      using int64_minute [OF L(2,3)] by (simp add: mult.commute)
    have res: "prevScheduledTime c f s currTime = Some (Inr (p, c'))"
      using before(1) L ne
      by (simp add: prevScheduledTime_unfold [OF st] m_def [symmetric] pos_def [symmetric]
          d_def [symmetric] index_last L_def [symmetric] e1 e2 int64_minute p_def mult.commute)
    have le: "p \<le> currTime" using currTime L m r by (simp add: p_def Nanos_Day_def Nanos_Minute_def)
    have maxi: "u \<le> p" if u: "u mod Nanos_Minute = 0" "GetElapsedMinsInThisDay u \<in> set all" "u \<le> currTime" for u
    proof -
      have "\<not> GetElapsedMinsInThisDay u \<le> m" using before(2) u(2) by auto
      then have "StartOfDay u + Nanos_Day \<le> d" using order [OF u(1,3)] by blast
      moreover have "GetElapsedMinsInThisDay u \<le> L"
        unfolding L_def using sorted u(2) by (rule sorted_le_last)
      ultimately show ?thesis
        using split_u [OF u(1)] by (simp add: p_def Nanos_Minute_def)
    qed
    have tie: "GetElapsedMinsInThisDay currTime \<notin> set all" using before(2) by (auto simp add: m_def)
    show ?thesis
      using res pj le maxi tie L(1)
      by (intro exI [of _ p]) (simp add: p_def d_def L_def)
  next
    case found
    define x0 where "x0 = all ! nat pos"
    have x0: "x0 \<in> set all" "0 \<le> x0" "x0 < 1440" "x0 \<le> m"
      using found range by (simp_all add: x0_def)
    define p where "p = d + x0 * Nanos_Minute + 0"
    have pj: "StartOfDay p = d" "GetElapsedMinsInThisDay p = x0" "p mod Nanos_Minute = 0"
      using time_join [OF d x0(2,3) z] by (simp_all add: p_def)
    have e2: "int64 (x0 * Nanos_Minute) = x0 * Nanos_Minute"
      using int64_minute [OF x0(2,3)] by (simp add: mult.commute)
    have res: "prevScheduledTime c f s currTime = Some (Inr (p, c'))"
      using found(1,2) x0
      by (simp add: prevScheduledTime_unfold [OF st] m_def [symmetric] pos_def [symmetric]
          d_def [symmetric] index_nth x0_def [symmetric] e2 int64_minute p_def mult.commute)
    have le: "p \<le> currTime" using currTime x0 r by (simp add: p_def Nanos_Minute_def)
    have maxi: "u \<le> p" if u: "u mod Nanos_Minute = 0" "GetElapsedMinsInThisDay u \<in> set all" "u \<le> currTime" for u
    proof -
      consider "StartOfDay u + Nanos_Day \<le> d" | "StartOfDay u = d" "GetElapsedMinsInThisDay u \<le> m"
        using order [OF u(1,3)] by blast
      then show ?thesis
      proof cases
        case 1
        then show ?thesis
          using split_u [OF u(1)] x0 by (simp add: p_def Nanos_Minute_def Nanos_Day_def)
      next
        case 2
        then have "GetElapsedMinsInThisDay u \<le> x0" using found(4) u(2) by (simp add: x0_def)
        then show ?thesis
          using split_u [OF u(1)] 2(1) by (simp add: p_def Nanos_Minute_def)
      qed
    qed
    have tie: "p = StartOfDay currTime + GetElapsedMinsInThisDay currTime * Nanos_Minute"
      if "GetElapsedMinsInThisDay currTime \<in> set all"
    proof -
      have "m \<le> x0" using found(4) that by (simp add: m_def x0_def)
      then show ?thesis using x0(4) by (simp add: p_def d_def m_def)
    qed
    have "\<not> (\<forall>x\<in>set all. GetElapsedMinsInThisDay currTime < x)"
      using x0(1,4) unfolding m_def by (metis not_less)
    then have early: "(\<forall>x\<in>set all. GetElapsedMinsInThisDay currTime < x)
                        \<longrightarrow> p = StartOfDay currTime - Nanos_Day + last all * Nanos_Minute"
      by blast
    show ?thesis
      using res pj le maxi tie early x0(1)
      by (intro exI [of _ p]) simp
  qed
qed

section \<open>Evaluating the clock helpers\<close>

lemma MinsOfDay_2209: "MinsOfDay ''22:09'' = 1329"
  by (simp add: MinsOfDay_def valid_HHMM_def is_digit_def)

lemma MinsOfDay_0907: "MinsOfDay ''09:07'' = 547"
  by (simp add: MinsOfDay_def valid_HHMM_def is_digit_def)

lemma MinsOfDay_0509: "MinsOfDay ''05:09'' = 309"
  by (simp add: MinsOfDay_def valid_HHMM_def is_digit_def)

lemma GetElapsedMinsInThisDay_of_minutes:
  "0 \<le> m \<Longrightarrow> m < 1440 \<Longrightarrow> GetElapsedMinsInThisDay (m * Nanos_Minute) = m"
proof -
  assume m: "0 \<le> m" "m < 1440"
  have h: "(m * 60000000000) div 3600000000000 = m div 60"
    by (simp add: zdiv_zmult2_eq [symmetric] flip: mult.commute [of 60000000000])
  have "m div 60 < 24" using m by simp
  moreover have "0 \<le> m div 60" using m by simp
  ultimately have "(m div 60) mod 24 = m div 60" by simp
  moreover have "(m * 60000000000) div 60000000000 = m" by simp
  ultimately show ?thesis
    using h by (simp add: GetElapsedMinsInThisDay_def Hour_def Minute_def Nanos_Hour_def
        Nanos_Minute_def)
qed

section \<open>The exclude window\<close>

text \<open>
  C1 (as stated, refuted). The spec's window is the closed interval from start to end. At
  05:09 UTC, the first minute of the window 05:09 to 09:07, the spec's window holds and
  the code answers false.
\<close>

theorem checkCurrentTimeExistsInExcludeWindow_closed_interval_counterexample:
  "InExcludeWindow_spec (309 * Nanos_Minute) ''05:09'' ''09:07''
   \<and> \<not> checkCurrentTimeExistsInExcludeWindow (309 * Nanos_Minute) ''05:09'' ''09:07''"
  by (simp add: InExcludeWindow_spec_def checkCurrentTimeExistsInExcludeWindow_def
      MinsOfDay_0509 MinsOfDay_0907 GetElapsedMinsInThisDay_of_minutes)

text \<open>
  C1 (amended). For non-empty bounds the code answers true exactly when the minute-of-day
  lies strictly between start and end; when start is after end the window wraps past
  midnight and the answer is true exactly when the minute-of-day is after start or before
  end. For the window 22:09 to 09:07 it is true at 23:30 and at 06:00 and false at 10:00.
  With an empty bound the answer is false.
\<close>

theorem checkCurrentTimeExistsInExcludeWindow_open_interval:
  "(start \<noteq> [] \<and> end \<noteq> [] \<longrightarrow>
      (checkCurrentTimeExistsInExcludeWindow t start end \<longleftrightarrow>
         (if MinsOfDay start \<le> MinsOfDay end
          then MinsOfDay start < GetElapsedMinsInThisDay t
               \<and> GetElapsedMinsInThisDay t < MinsOfDay end
          else MinsOfDay start < GetElapsedMinsInThisDay t
               \<or> GetElapsedMinsInThisDay t < MinsOfDay end)))
   \<and> (GetElapsedMinsInThisDay t = 23 * 60 + 30 \<longrightarrow>
        checkCurrentTimeExistsInExcludeWindow t ''22:09'' ''09:07'')
   \<and> (GetElapsedMinsInThisDay t = 6 * 60 \<longrightarrow>
        checkCurrentTimeExistsInExcludeWindow t ''22:09'' ''09:07'')
   \<and> (GetElapsedMinsInThisDay t = 10 * 60 \<longrightarrow>
        \<not> checkCurrentTimeExistsInExcludeWindow t ''22:09'' ''09:07'')
   \<and> \<not> checkCurrentTimeExistsInExcludeWindow t [] end
   \<and> \<not> checkCurrentTimeExistsInExcludeWindow t start []"
  by (auto simp add: checkCurrentTimeExistsInExcludeWindow_def Let_def MinsOfDay_2209
      MinsOfDay_0907)

theorem checkCurrentTimeExistsInExcludeWindow_open_interval_witness:
  "''22:09'' \<noteq> [] \<and> ''09:07'' \<noteq> []
   \<and> GetElapsedMinsInThisDay (1410 * Nanos_Minute) = 23 * 60 + 30
   \<and> checkCurrentTimeExistsInExcludeWindow (1410 * Nanos_Minute) ''22:09'' ''09:07''
   \<and> GetElapsedMinsInThisDay (360 * Nanos_Minute) = 6 * 60
   \<and> checkCurrentTimeExistsInExcludeWindow (360 * Nanos_Minute) ''22:09'' ''09:07''
   \<and> GetElapsedMinsInThisDay (600 * Nanos_Minute) = 10 * 60
   \<and> \<not> checkCurrentTimeExistsInExcludeWindow (600 * Nanos_Minute) ''22:09'' ''09:07''"
proof -
  have a: "GetElapsedMinsInThisDay (1410 * Nanos_Minute) = 23 * 60 + 30"
    by (simp add: GetElapsedMinsInThisDay_of_minutes)
  have b: "GetElapsedMinsInThisDay (360 * Nanos_Minute) = 6 * 60"
    by (simp add: GetElapsedMinsInThisDay_of_minutes)
  have c: "GetElapsedMinsInThisDay (600 * Nanos_Minute) = 10 * 60"
    by (simp add: GetElapsedMinsInThisDay_of_minutes)
  show ?thesis
    using a b c
      checkCurrentTimeExistsInExcludeWindow_open_interval [of "''22:09''" "''09:07''" "1410 * Nanos_Minute"]
      checkCurrentTimeExistsInExcludeWindow_open_interval [of "''22:09''" "''09:07''" "360 * Nanos_Minute"]
      checkCurrentTimeExistsInExcludeWindow_open_interval [of "''22:09''" "''09:07''" "600 * Nanos_Minute"]
    by blast
qed

section \<open>The object name of a GCS location\<close>

text \<open>
  C10. \<open>GetObjectNameFromLocation\<close> returns what follows the first
  \<open>len("https://storage.googleapis.com/" + bucket + "/")\<close> bytes of the location,
  whatever those bytes are; a location shorter than that base URL makes the slice
  expression panic. So it returns exactly when the location is at least as long as the
  base URL.
\<close>

theorem GetObjectNameFromLocation_suffix_or_panic:
  "(length (''https://storage.googleapis.com/'' @ Bucket config @ ''/'') \<le> length location \<longrightarrow>
      GetObjectNameFromLocation config location =
        Inr (drop (length (''https://storage.googleapis.com/'' @ Bucket config @ ''/'')) location, None))
   \<and> (length location < length (''https://storage.googleapis.com/'' @ Bucket config @ ''/'') \<longrightarrow>
      GetObjectNameFromLocation config location = Inl SliceBoundsOutOfRange)
   \<and> ((\<exists>name. GetObjectNameFromLocation config location = Inr name) \<longleftrightarrow>
        length (''https://storage.googleapis.com/'' @ Bucket config @ ''/'') \<le> length location)"
  by (auto simp add: GetObjectNameFromLocation_def Let_def)

theorem GetObjectNameFromLocation_suffix_or_panic_witness:
  "length (''https://storage.googleapis.com/'' @ ''b'' @ ''/'')
     \<le> length ''ftp://elsewhere.example.org/a/bucket/key''
   \<and> GetObjectNameFromLocation \<lparr>Bucket = ''b'', Prefix = [], Credentials = []\<rparr>
        ''ftp://elsewhere.example.org/a/bucket/key'' = Inr (''ket/key'', None)
   \<and> length ''https://storage'' < length (''https://storage.googleapis.com/'' @ ''b'' @ ''/'')
   \<and> GetObjectNameFromLocation \<lparr>Bucket = ''b'', Prefix = [], Credentials = []\<rparr>
        ''https://storage'' = Inl SliceBoundsOutOfRange"
  using GetObjectNameFromLocation_suffix_or_panic
          [of "\<lparr>Bucket = ''b'', Prefix = [], Credentials = []\<rparr>"
              "''ftp://elsewhere.example.org/a/bucket/key''"]
        GetObjectNameFromLocation_suffix_or_panic
          [of "\<lparr>Bucket = ''b'', Prefix = [], Credentials = []\<rparr>" "''https://storage''"]
  by simp

section \<open>Evaluating the parsers\<close>

lemma Atoi_180: "Atoi ''180'' = (180, None)"
  by (simp add: Atoi.simps parse_digits_def is_digit_def)

lemma MinsOfDay_1300: "MinsOfDay ''13:00'' = 780"
  by (simp add: MinsOfDay_def valid_HHMM_def is_digit_def)

lemma valid_HHMM_1300: "valid_HHMM ''13:00''"
  by (simp add: valid_HHMM_def is_digit_def)

lemma Atoi_MaxInt64: "Atoi ''9223372036854775807'' = (9223372036854775807, None)"
  by (simp add: Atoi.simps parse_digits_def is_digit_def)

lemma MinsOfDay_0001: "MinsOfDay ''00:01'' = 1"
  by (simp add: MinsOfDay_def valid_HHMM_def is_digit_def)

lemma valid_HHMM_0001: "valid_HHMM ''00:01''"
  by (simp add: valid_HHMM_def is_digit_def)

lemma computed_MaxInt64_0001:
  "computed ''9223372036854775807'' ''00:01'' = Some [1, - 9223372036854775808, - 1]"
  by (simp add: computed_def scheduledTimes_def Atoi_MaxInt64 MinsOfDay_0001 Let_def
      forward_loop.simps backward_loop.simps int64_def)

section \<open>The scheduled times of a day\<close>

text \<open>
  C5 (as stated, refuted). The frequency \<open>9223372036854775807\<close> is a positive integer and
  \<open>00:01\<close> a valid start. The first forward step adds them, which wraps around to the
  smallest 64-bit integer: the list returned is neither sorted nor within \<open>[0, 1440)\<close>.
\<close>

theorem scheduledTimes_overflow_counterexample:
  "1 \<le> fst (Atoi ''9223372036854775807'')
   \<and> valid_HHMM ''00:01''
   \<and> map_option fst (scheduledTimes Map.empty ''9223372036854775807'' ''00:01'')
       = Some [1, - 9223372036854775808, - 1]
   \<and> \<not> sorted_wrt (<) [1, - 9223372036854775808, - 1 :: int]
   \<and> - 9223372036854775808 < (0 :: int)"
  using computed_MaxInt64_0001 by (simp add: computed_def Atoi_MaxInt64 valid_HHMM_0001)

text \<open>
  C5 (amended). For a valid \<open>HH:MM\<close> start \<open>s\<close> and a frequency string \<open>f\<close> that
  \<open>Atoi\<close> reads as an integer \<open>F \<ge> 1\<close> with \<open>MinsOfDay s + F\<close> within the 64-bit
  range, from every cache the program can hold \<open>scheduledTimes f s\<close> returns a strictly
  sorted list of integers in \<open>[0, 1440)\<close>: exactly the minutes reached from the start in
  steps of \<open>F\<close>, the start among them. Its length is \<open>(1439 - s mod F) div F + 1\<close>, which
  is the ceiling of \<open>1440 / F\<close> or one less, depending on the alignment of the start. A
  second call with the same arguments, now answered by the cache, returns the same list.
\<close>

theorem scheduledTimes_sorted_in_range:
  assumes "cache_reachable c" and "valid_HHMM s" and "1 \<le> fst (Atoi f)"
    and "MinsOfDay s + fst (Atoi f) \<le> 9223372036854775807"
  shows "\<exists>ts c'. scheduledTimes c f s = Some (ts, c')
           \<and> sorted_wrt (<) ts
           \<and> (\<forall>m\<in>set ts. 0 \<le> m \<and> m < 1440)
           \<and> (\<forall>m. m \<in> set ts \<longleftrightarrow> is_slot (MinsOfDay s) (fst (Atoi f)) m)
           \<and> MinsOfDay s \<in> set ts
           \<and> int (length ts) = (1439 - MinsOfDay s mod fst (Atoi f)) div fst (Atoi f) + 1
           \<and> (int (length ts) = (1440 + fst (Atoi f) - 1) div fst (Atoi f)
              \<or> int (length ts) = (1440 + fst (Atoi f) - 1) div fst (Atoi f) - 1)
           \<and> scheduledTimes c' f s = Some (ts, c')
           \<and> cache_reachable c'"
proof -
  let ?S = "MinsOfDay s" and ?F = "fst (Atoi f)"
  let ?ts = "slots ?S ?F"
  let ?c' = "if c (cacheKey f s) = None then c(cacheKey f s \<mapsto> ?ts) else c"
  have S: "0 \<le> ?S" "?S < 1440" using MinsOfDay_range [of s] by simp_all
  have nm: "CHR ''-'' \<notin> set f" "CHR ''-'' \<notin> set s"
    using assms(2,3) Atoi_minus [of f] valid_HHMM_no_minus [of s] by auto
  have comp: "computed f s = Some ?ts" using assms(3,4) by (rule computed_normal)
  have first: "scheduledTimes c f s = Some (?ts, ?c')"
    using scheduledTimes_reachable [OF assms(1) nm] comp by simp
  have "?c' (cacheKey f s) = Some ?ts"
    using first by (cases "c (cacheKey f s)") (simp_all add: scheduledTimes_def)
  then have second: "scheduledTimes ?c' f s = Some (?ts, ?c')" by (rule scheduledTimes_hit)
  have reach: "cache_reachable ?c'" using assms(1) first by (rule cache_reachable.call)
  have set: "\<forall>m. m \<in> set ?ts \<longleftrightarrow> is_slot ?S ?F m" using assms(3) by (simp add: slots_set)
  then have range: "\<forall>m\<in>set ?ts. 0 \<le> m \<and> m < 1440" by (simp add: is_slot_def)
  have mem: "?S \<in> set ?ts" using set S by (simp add: is_slot_def)
  show ?thesis
    using first second reach set range mem slots_sorted [OF assms(3), of ?S]
      slots_length [OF assms(3) S] slots_length_ceiling [OF assms(3) S]
    by blast
qed

theorem scheduledTimes_sorted_in_range_witness:
  "cache_reachable Map.empty \<and> valid_HHMM ''13:00'' \<and> 1 \<le> fst (Atoi ''180'')
   \<and> MinsOfDay ''13:00'' + fst (Atoi ''180'') \<le> 9223372036854775807
   \<and> (\<exists>ts c'. scheduledTimes Map.empty ''180'' ''13:00'' = Some (ts, c')
           \<and> sorted_wrt (<) ts
           \<and> MinsOfDay ''13:00'' \<in> set ts
           \<and> int (length ts) = 8
           \<and> scheduledTimes c' ''180'' ''13:00'' = Some (ts, c'))"
proof -
  have h: "cache_reachable Map.empty" "valid_HHMM ''13:00''" "1 \<le> fst (Atoi ''180'')"
    "MinsOfDay ''13:00'' + fst (Atoi ''180'') \<le> 9223372036854775807"
    by (simp_all add: cache_reachable.init valid_HHMM_1300 Atoi_180 MinsOfDay_1300)
  have "(1439 - MinsOfDay ''13:00'' mod fst (Atoi ''180'')) div fst (Atoi ''180'') + 1 = 8"
    by (simp add: Atoi_180 MinsOfDay_1300)
  then show ?thesis
    using h scheduledTimes_sorted_in_range [OF h] by (simp only: ) blast
qed

section \<open>Termination of scheduledTimes\<close>

text \<open>
  C9 (as stated, refuted). The claim has the call diverge for every frequency that is not
  at least 1. The string \<open>-4611686018427387904\<close> parses to minus two to the 62; three
  times that value wraps around to a large positive integer, the forward loop leaves in its
  third round, the backward loop in its second, and the call returns.
\<close>

theorem scheduledTimes_negative_frequency_counterexample:
  "\<not> 1 \<le> fst (Atoi ''-4611686018427387904'')
   \<and> scheduledTimes Map.empty ''-4611686018427387904'' ''00:00''
       = Some ([4611686018427387904, 0, - 4611686018427387904, - 9223372036854775808],
               [''-4611686018427387904-00:00'' \<mapsto>
                  [4611686018427387904, 0, - 4611686018427387904, - 9223372036854775808]])"
  by (simp add: scheduledTimes_def cacheKey_def Atoi.simps parse_digits_def is_digit_def MinsOfDay_def
      valid_HHMM_def Let_def forward_loop.simps backward_loop.simps int64_def)

text \<open>
  C9 (amended). The error of \<open>Atoi\<close> is discarded. When \<open>Atoi\<close> yields an integer of at
  least 1 the call of \<open>scheduledTimes\<close> returns, whatever the cache holds. When
  \<open>Atoi\<close> yields 0, which it does for every string with a syntax error such as the empty
  string or \<open>abc\<close>, a call that misses the cache never returns: the accumulator of the
  forward loop stays at the start minute, below 1440.
\<close>

theorem scheduledTimes_termination:
  "(1 \<le> fst (Atoi f) \<longrightarrow> (\<exists>r. scheduledTimes c f s = Some r))
   \<and> (fst (Atoi f) = 0 \<and> c (cacheKey f s) = None \<longrightarrow> scheduledTimes c f s = None)
   \<and> Atoi [] = (0, Some (Err ''invalid syntax''))
   \<and> Atoi ''abc'' = (0, Some (Err ''invalid syntax''))"
proof -
  have "\<exists>r. scheduledTimes c f s = Some r" if "1 \<le> fst (Atoi f)"
  proof (cases "c (cacheKey f s)")
    case None
    then show ?thesis
      using computed_returns [OF that, of s] by (auto simp add: scheduledTimes_miss_computed)
  next
    case (Some ts)
    then show ?thesis by (simp add: scheduledTimes_hit)
  qed
  moreover have "scheduledTimes c f s = None" if "fst (Atoi f) = 0 \<and> c (cacheKey f s) = None"
    using that computed_zero [of f s] by (simp add: scheduledTimes_miss_computed)
  moreover have "Atoi ''abc'' = (0, Some (Err ''invalid syntax''))"
    by (simp add: Atoi.simps parse_digits_def is_digit_def)
  ultimately show ?thesis by (simp add: Atoi.simps)
qed

theorem scheduledTimes_termination_witness:
  "1 \<le> fst (Atoi ''180'')
   \<and> (\<exists>r. scheduledTimes Map.empty ''180'' ''13:00'' = Some r)
   \<and> fst (Atoi ''abc'') = 0 \<and> Map.empty (cacheKey ''abc'' ''13:00'') = (None :: int list option)
   \<and> scheduledTimes Map.empty ''abc'' ''13:00'' = None
   \<and> fst (Atoi []) = 0
   \<and> scheduledTimes Map.empty [] ''13:00'' = None"
  using scheduledTimes_termination [of "''180''" Map.empty "''13:00''"]
    scheduledTimes_termination [of "''abc''" Map.empty "''13:00''"]
    scheduledTimes_termination [of "[]" Map.empty "''13:00''"]
  by (simp add: Atoi_180)

section \<open>The previous scheduled time\<close>

lemma prevScheduledTime_first_largest:
  assumes st: "scheduledTimes c f s = Some (S # ex, c')" and ex: "\<forall>x\<in>set ex. x < S"
  shows "prevScheduledTime c f s t =
           Some (Inr (StartOfDay t + (if GetElapsedMinsInThisDay t < S then - Nanos_Day else 0)
                        + int64 (Nanos_Minute * last (S # ex)), c'))"
proof (cases "GetElapsedMinsInThisDay t < S")
  case True
  then have "pos_loop (GetElapsedMinsInThisDay t) (length (S # ex)) (S # ex) 0 0 = - 1"
    by simp
  then show ?thesis
    using True index_last [of "S # ex"] int64_minus_day
    by (simp add: prevScheduledTime_unfold [OF st])
next
  case False
  then have "\<forall>x\<in>set (S # ex). x \<le> GetElapsedMinsInThisDay t" using ex by auto
  then have "pos_loop (GetElapsedMinsInThisDay t) (length (S # ex)) (S # ex) 0 0
             = int (length (S # ex)) - 1"
    by (intro pos_loop_all_le) simp_all
  then show ?thesis
    using False index_last [of "S # ex"]
    by (simp add: prevScheduledTime_unfold [OF st])
qed

lemma slots_780_180: "slots 780 180 = [60, 240, 420, 600, 780, 960, 1140, 1320]"
  by (simp add: slots_def upto.simps)

lemma GetElapsedMinsInThisDay_0030: "GetElapsedMinsInThisDay 1800000000000 = 30"
  using GetElapsedMinsInThisDay_of_minutes [of 30] by (simp add: Nanos_Minute_def)

lemma StartOfDay_0030: "StartOfDay 1800000000000 = 0"
  by (simp add: StartOfDay_def Nanos_Day_def)

lemma scheduled_instant_slots:
  "1 \<le> F \<Longrightarrow> scheduled_instant S F u
     \<longleftrightarrow> u mod Nanos_Minute = 0 \<and> GetElapsedMinsInThisDay u \<in> set (slots S F)"
  by (simp add: scheduled_instant_def GetElapsedMinsInThisDay_eq slots_set)

text \<open>
  C3 (as stated, refuted). With the frequency \<open>9223372036854775807\<close> and the start
  \<open>00:01\<close> the only slot of a day is 00:01, and the list of \<open>scheduledTimes\<close> is
  \<open>[1, -9223372036854775808, -1]\<close>. At 00:05 the code returns 23:59 of the previous day,
  although 00:01 of the same day is a scheduled instant that is later and not after now.
\<close>

theorem prevScheduledTime_overflow_counterexample:
  "1 \<le> fst (Atoi ''9223372036854775807'') \<and> valid_HHMM ''00:01''
   \<and> map_option (map_sum id fst)
        (prevScheduledTime Map.empty ''9223372036854775807'' ''00:01'' (5 * Nanos_Minute))
       = Some (Inr (- Nanos_Minute))
   \<and> scheduled_instant (MinsOfDay ''00:01'') (fst (Atoi ''9223372036854775807'')) Nanos_Minute
   \<and> Nanos_Minute \<le> 5 * Nanos_Minute
   \<and> - Nanos_Minute < Nanos_Minute"
proof -
  have st: "scheduledTimes Map.empty ''9223372036854775807'' ''00:01''
            = Some ([1, - 9223372036854775808, - 1],
                    [cacheKey ''9223372036854775807'' ''00:01'' \<mapsto> [1, - 9223372036854775808, - 1]])"
    using computed_MaxInt64_0001 scheduledTimes_miss_computed [of Map.empty "''9223372036854775807''" "''00:01''"]
    by simp
  have "GetElapsedMinsInThisDay (5 * Nanos_Minute) = 5"
    by (rule GetElapsedMinsInThisDay_of_minutes) simp_all
  moreover have "StartOfDay (5 * Nanos_Minute) = 0"
    by (simp add: StartOfDay_def Nanos_Day_def Nanos_Minute_def)
  moreover have "int64 (- Nanos_Minute) = - Nanos_Minute"
    by (simp add: int64_def Nanos_Minute_def)
  ultimately have "prevScheduledTime Map.empty ''9223372036854775807'' ''00:01'' (5 * Nanos_Minute)
        = Some (Inr (- Nanos_Minute,
                     [cacheKey ''9223372036854775807'' ''00:01'' \<mapsto> [1, - 9223372036854775808, - 1]]))"
    by (simp add: prevScheduledTime_unfold [OF st] index_def)
  moreover have "scheduled_instant 1 9223372036854775807 Nanos_Minute"
    by (simp add: scheduled_instant_def is_slot_def Nanos_Minute_def Nanos_Day_def)
  ultimately show ?thesis
    by (simp add: Atoi_MaxInt64 valid_HHMM_0001 MinsOfDay_0001 Nanos_Minute_def)
qed

text \<open>
  C3 (amended). For a valid \<open>HH:MM\<close> start and a frequency that \<open>Atoi\<close> reads as an
  integer \<open>F \<ge> 1\<close> with \<open>MinsOfDay s + F\<close> within the 64-bit range, from every cache the
  program can hold \<open>prevScheduledTime\<close> returns the most recent scheduled instant that is
  not after now. When the minute-of-day of now is itself a slot, that minute of the same day
  is returned; when now is before the earliest slot of the day, the last slot of the prior
  UTC day is returned. For the frequency 180 and the start 13:00, at 00:30 it returns 22:00
  of the previous day, two hours before midnight.
\<close>

theorem prevScheduledTime_most_recent:
  assumes "cache_reachable c" and "valid_HHMM s" and "1 \<le> fst (Atoi f)"
    and "MinsOfDay s + fst (Atoi f) \<le> 9223372036854775807"
  shows "\<exists>p c'. prevScheduledTime c f s t = Some (Inr (p, c'))
           \<and> scheduled_instant (MinsOfDay s) (fst (Atoi f)) p \<and> p \<le> t
           \<and> (\<forall>u. scheduled_instant (MinsOfDay s) (fst (Atoi f)) u \<and> u \<le> t \<longrightarrow> u \<le> p)
           \<and> (is_slot (MinsOfDay s) (fst (Atoi f)) (GetElapsedMinsInThisDay t)
                \<longrightarrow> p = StartOfDay t + GetElapsedMinsInThisDay t * Nanos_Minute)
           \<and> ((\<forall>m. is_slot (MinsOfDay s) (fst (Atoi f)) m \<longrightarrow> GetElapsedMinsInThisDay t < m)
                \<longrightarrow> (\<exists>l. is_slot (MinsOfDay s) (fst (Atoi f)) l
                          \<and> (\<forall>m. is_slot (MinsOfDay s) (fst (Atoi f)) m \<longrightarrow> m \<le> l)
                          \<and> p = StartOfDay t - Nanos_Day + l * Nanos_Minute))
           \<and> (f = ''180'' \<and> s = ''13:00'' \<and> GetElapsedMinsInThisDay t = 30
                \<longrightarrow> p = StartOfDay t - 2 * Nanos_Hour)"
proof -
  let ?S = "MinsOfDay s" and ?F = "fst (Atoi f)"
  let ?all = "slots ?S ?F"
  have S: "0 \<le> ?S" "?S < 1440" using MinsOfDay_range [of s] by simp_all
  have nm: "CHR ''-'' \<notin> set f" "CHR ''-'' \<notin> set s"
    using assms(2,3) Atoi_minus [of f] valid_HHMM_no_minus [of s] by auto
  have comp: "computed f s = Some ?all" using assms(3,4) by (rule computed_normal)
  obtain c' where st: "scheduledTimes c f s = Some (?all, c')"
    using scheduledTimes_reachable [OF assms(1) nm] comp by simp
  have set: "\<And>m. m \<in> set ?all \<longleftrightarrow> is_slot ?S ?F m" using assms(3) by (simp add: slots_set)
  have mem: "?S \<in> set ?all" using set S by (simp add: is_slot_def)
  then have ne: "?all \<noteq> []" by auto
  have range: "\<forall>x\<in>set ?all. 0 \<le> x \<and> x < 1440" using set by (simp add: is_slot_def)
  have sorted: "sorted_wrt (<) ?all" using assms(3) by (rule slots_sorted)
  obtain p where p: "prevScheduledTime c f s t = Some (Inr (p, c'))"
    "p mod Nanos_Minute = 0" "GetElapsedMinsInThisDay p \<in> set ?all" "p \<le> t"
    "\<And>u. u mod Nanos_Minute = 0 \<and> GetElapsedMinsInThisDay u \<in> set ?all \<and> u \<le> t \<Longrightarrow> u \<le> p"
    "GetElapsedMinsInThisDay t \<in> set ?all
       \<Longrightarrow> p = StartOfDay t + GetElapsedMinsInThisDay t * Nanos_Minute"
    "\<forall>x\<in>set ?all. GetElapsedMinsInThisDay t < x
       \<Longrightarrow> p = StartOfDay t - Nanos_Day + last ?all * Nanos_Minute"
    using prevScheduledTime_sorted [OF st sorted ne range, of t]
    by (elim exE conjE) (rule that, assumption+, simp_all)
  have si: "\<And>u. scheduled_instant ?S ?F u
              \<longleftrightarrow> u mod Nanos_Minute = 0 \<and> GetElapsedMinsInThisDay u \<in> set ?all"
    using assms(3) by (rule scheduled_instant_slots)
  have a: "scheduled_instant ?S ?F p" using p(2,3) si by simp
  have b: "\<forall>u. scheduled_instant ?S ?F u \<and> u \<le> t \<longrightarrow> u \<le> p" using p(5) si by simp
  have c: "is_slot ?S ?F (GetElapsedMinsInThisDay t)
             \<longrightarrow> p = StartOfDay t + GetElapsedMinsInThisDay t * Nanos_Minute"
    using p(6) set by simp
  have d: "\<exists>l. is_slot ?S ?F l \<and> (\<forall>m. is_slot ?S ?F m \<longrightarrow> m \<le> l)
             \<and> p = StartOfDay t - Nanos_Day + l * Nanos_Minute"
    if h: "\<forall>m. is_slot ?S ?F m \<longrightarrow> GetElapsedMinsInThisDay t < m"
  proof (intro exI [of _ "last ?all"] conjI allI impI)
    show "is_slot ?S ?F (last ?all)" using ne set [of "last ?all"] by simp
    show "m \<le> last ?all" if "is_slot ?S ?F m" for m
      using sorted_le_last [OF sorted, of m] set [of m] that by simp
    show "p = StartOfDay t - Nanos_Day + last ?all * Nanos_Minute"
      using p(7) h set by simp
  qed
  have e: "p = StartOfDay t - 2 * Nanos_Hour"
    if h: "f = ''180'' \<and> s = ''13:00'' \<and> GetElapsedMinsInThisDay t = 30"
  proof -
    have all: "?all = [60, 240, 420, 600, 780, 960, 1140, 1320]"
      using h by (simp add: Atoi_180 MinsOfDay_1300 slots_780_180)
    then have "\<forall>x\<in>set ?all. GetElapsedMinsInThisDay t < x" using h by simp
    then have "p = StartOfDay t - Nanos_Day + last ?all * Nanos_Minute" by (rule p(7))
    then show ?thesis
      by (simp add: all Nanos_Day_def Nanos_Minute_def Nanos_Hour_def)
  qed
  show ?thesis using p(1,4) a b c d e by blast
qed

theorem prevScheduledTime_most_recent_witness:
  "cache_reachable Map.empty \<and> valid_HHMM ''13:00'' \<and> 1 \<le> fst (Atoi ''180'')
   \<and> MinsOfDay ''13:00'' + fst (Atoi ''180'') \<le> 9223372036854775807
   \<and> GetElapsedMinsInThisDay 1800000000000 = 30
   \<and> (\<exists>c'. prevScheduledTime Map.empty ''180'' ''13:00'' 1800000000000
              = Some (Inr (- 7200000000000, c')))"
proof -
  have h: "cache_reachable Map.empty" "valid_HHMM ''13:00''" "1 \<le> fst (Atoi ''180'')"
    "MinsOfDay ''13:00'' + fst (Atoi ''180'') \<le> 9223372036854775807"
    by (simp_all add: cache_reachable.init valid_HHMM_1300 Atoi_180 MinsOfDay_1300)
  obtain p c' where p: "prevScheduledTime Map.empty ''180'' ''13:00'' 1800000000000 = Some (Inr (p, c'))"
    "''180'' = ''180'' \<and> ''13:00'' = ''13:00'' \<and> GetElapsedMinsInThisDay 1800000000000 = 30
       \<longrightarrow> p = StartOfDay 1800000000000 - 2 * Nanos_Hour"
    using prevScheduledTime_most_recent [OF h, of 1800000000000] by blast
  have "p = - 7200000000000"
    using p(2) by (simp add: GetElapsedMinsInThisDay_0030 StartOfDay_0030 Nanos_Hour_def)
  then show ?thesis using h p(1) GetElapsedMinsInThisDay_0030 by blast
qed

text \<open>
  C4. For a valid \<open>HH:MM\<close> start and every frequency that \<open>Atoi\<close> reads as an integer
  of at least 1, \<open>prevScheduledTime\<close> is monotonic in its time argument: for
  \<open>t1 \<le> t2\<close> both calls return, from any caches the program can hold, and the result for
  \<open>t1\<close> is not after the result for \<open>t2\<close>. This includes the frequencies whose first
  forward step overflows.
\<close>

theorem prevScheduledTime_monotone:
  assumes "cache_reachable c1" and "cache_reachable c2" and "valid_HHMM s"
    and "1 \<le> fst (Atoi f)" and "t1 \<le> t2"
  shows "\<exists>p1 c1' p2 c2'. prevScheduledTime c1 f s t1 = Some (Inr (p1, c1'))
           \<and> prevScheduledTime c2 f s t2 = Some (Inr (p2, c2')) \<and> p1 \<le> p2"
proof -
  let ?S = "MinsOfDay s" and ?F = "fst (Atoi f)"
  have S: "0 \<le> ?S" "?S < 1440" using MinsOfDay_range [of s] by simp_all
  have nm: "CHR ''-'' \<notin> set f" "CHR ''-'' \<notin> set s"
    using assms(3,4) Atoi_minus [of f] valid_HHMM_no_minus [of s] by auto
  show ?thesis
  proof (cases "?S + ?F \<le> 9223372036854775807")
    case True
    let ?all = "slots ?S ?F"
    have comp: "computed f s = Some ?all" using assms(4) True by (rule computed_normal)
    obtain c1' where st1: "scheduledTimes c1 f s = Some (?all, c1')"
      using scheduledTimes_reachable [OF assms(1) nm] comp by simp
    obtain c2' where st2: "scheduledTimes c2 f s = Some (?all, c2')"
      using scheduledTimes_reachable [OF assms(2) nm] comp by simp
    have set: "\<And>m. m \<in> set ?all \<longleftrightarrow> is_slot ?S ?F m" using assms(4) by (simp add: slots_set)
    have "?S \<in> set ?all" using set S by (simp add: is_slot_def)
    then have ne: "?all \<noteq> []" by auto
    have range: "\<forall>x\<in>set ?all. 0 \<le> x \<and> x < 1440" using set by (simp add: is_slot_def)
    have sorted: "sorted_wrt (<) ?all" using assms(4) by (rule slots_sorted)
    obtain p1 where p1: "prevScheduledTime c1 f s t1 = Some (Inr (p1, c1'))"
      "p1 mod Nanos_Minute = 0" "GetElapsedMinsInThisDay p1 \<in> set ?all" "p1 \<le> t1"
      using prevScheduledTime_sorted [OF st1 sorted ne range, of t1]
      by (elim exE conjE) (rule that, assumption+)
    obtain p2 where p2: "prevScheduledTime c2 f s t2 = Some (Inr (p2, c2'))"
      "\<And>u. u mod Nanos_Minute = 0 \<and> GetElapsedMinsInThisDay u \<in> set ?all \<and> u \<le> t2 \<Longrightarrow> u \<le> p2"
      using prevScheduledTime_sorted [OF st2 sorted ne range, of t2]
      by (elim exE conjE) (rule that, assumption+, simp_all)
    have "p1 \<le> p2" using p1(2,3,4) assms(5) by (intro p2(2)) simp
    then show ?thesis using p1(1) p2(1) by blast
  next
    case False
    then obtain ex where ex: "computed f s = Some (?S # ex)" "\<forall>m\<in>set ex. m < ?S"
      using computed_overflow [OF assms(4), of s] by auto
    obtain c1' where st1: "scheduledTimes c1 f s = Some (?S # ex, c1')"
      using scheduledTimes_reachable [OF assms(1) nm] ex(1) by simp
    obtain c2' where st2: "scheduledTimes c2 f s = Some (?S # ex, c2')"
      using scheduledTimes_reachable [OF assms(2) nm] ex(1) by simp
    define D where "D = int64 (Nanos_Minute * last (?S # ex))"
    define off where "off u = (if GetElapsedMinsInThisDay u < ?S then - Nanos_Day else 0)" for u :: int
    have r1: "prevScheduledTime c1 f s t1 = Some (Inr (StartOfDay t1 + off t1 + D, c1'))"
      unfolding off_def D_def using st1 ex(2) by (rule prevScheduledTime_first_largest)
    have r2: "prevScheduledTime c2 f s t2 = Some (Inr (StartOfDay t2 + off t2 + D, c2'))"
      unfolding off_def D_def using st2 ex(2) by (rule prevScheduledTime_first_largest)
    have "StartOfDay t1 + GetElapsedMinsInThisDay t1 * Nanos_Minute + t1 mod Nanos_Minute
          \<le> StartOfDay t2 + GetElapsedMinsInThisDay t2 * Nanos_Minute + t2 mod Nanos_Minute"
      using time_split [of t1] time_split [of t2] assms(5) by simp
    then have "StartOfDay t1 + Nanos_Day \<le> StartOfDay t2
               \<or> (StartOfDay t1 = StartOfDay t2
                   \<and> GetElapsedMinsInThisDay t1 * Nanos_Minute + t1 mod Nanos_Minute
                       \<le> GetElapsedMinsInThisDay t2 * Nanos_Minute + t2 mod Nanos_Minute)"
      using time_split [of t1] time_split [of t2] by (intro days_order) simp_all
    then have "StartOfDay t1 + Nanos_Day \<le> StartOfDay t2
               \<or> (StartOfDay t1 = StartOfDay t2 \<and> GetElapsedMinsInThisDay t1 \<le> GetElapsedMinsInThisDay t2)"
      using minutes_order [of "GetElapsedMinsInThisDay t1" "t1 mod Nanos_Minute"
          "GetElapsedMinsInThisDay t2" "t2 mod Nanos_Minute"] time_split [of t1] time_split [of t2]
      by blast
    then have "StartOfDay t1 + off t1 + D \<le> StartOfDay t2 + off t2 + D"
      by (auto simp add: off_def Nanos_Day_def)
    then show ?thesis using r1 r2 by blast
  qed
qed

theorem prevScheduledTime_monotone_witness:
  "cache_reachable Map.empty \<and> valid_HHMM ''13:00'' \<and> 1 \<le> fst (Atoi ''180'')
   \<and> (1800000000000 :: int) \<le> 64800000000000
   \<and> (\<exists>p1 c1' p2 c2'.
         prevScheduledTime Map.empty ''180'' ''13:00'' 1800000000000 = Some (Inr (p1, c1'))
         \<and> prevScheduledTime Map.empty ''180'' ''13:00'' 64800000000000 = Some (Inr (p2, c2'))
         \<and> p1 \<le> p2)"
proof -
  have h: "cache_reachable Map.empty" "valid_HHMM ''13:00''" "1 \<le> fst (Atoi ''180'')"
    "(1800000000000 :: int) \<le> 64800000000000"
    by (simp_all add: cache_reachable.init valid_HHMM_1300 Atoi_180)
  show ?thesis
    using h prevScheduledTime_monotone [OF h(1) h(1) h(2) h(3) h(4)] by blast
qed

section \<open>Whether an upload can be created\<close>

lemma excludeWindowStartEndTimes_0509_0907: "excludeWindowStartEndTimes
    [ExcludeWindowStartTime \<mapsto> StringValue ''05:09'', ExcludeWindowEndTime \<mapsto> StringValue ''09:07'']
    = (''05:09'', ''09:07'')"
  by (simp add: excludeWindowStartEndTimes_def ExcludeWindowStartTime_def ExcludeWindowEndTime_def)

lemma prevScheduledTime_1800:
  "prevScheduledTime Map.empty ''180'' ''13:00'' 64800000000000
   = Some (Inr (57600000000000,
        [cacheKey ''180'' ''13:00'' \<mapsto> [60, 240, 420, 600, 780, 960, 1140, 1320]]))"
proof -
  have "computed ''180'' ''13:00'' = Some [60, 240, 420, 600, 780, 960, 1140, 1320]"
    using computed_normal [of "''180''" "''13:00''"]
    by (simp add: Atoi_180 MinsOfDay_1300 slots_780_180)
  then have st: "scheduledTimes Map.empty ''180'' ''13:00''
                 = Some ([60, 240, 420, 600, 780, 960, 1140, 1320],
                         [cacheKey ''180'' ''13:00'' \<mapsto> [60, 240, 420, 600, 780, 960, 1140, 1320]])"
    by (simp add: scheduledTimes_miss_computed)
  have "GetElapsedMinsInThisDay 64800000000000 = 1080"
    using GetElapsedMinsInThisDay_of_minutes [of 1080] by (simp add: Nanos_Minute_def)
  moreover have "StartOfDay 64800000000000 = 0" by (simp add: StartOfDay_def Nanos_Day_def)
  moreover have "int64 (Nanos_Minute * 960) = 57600000000000"
    by (simp add: int64_def Nanos_Minute_def)
  ultimately show ?thesis
    by (simp add: prevScheduledTime_unfold [OF st] index_def)
qed

lemma checkCurrentTimeExistsInExcludeWindow_eq_open:
  "checkCurrentTimeExistsInExcludeWindow t start end = InExcludeWindow_open t start end"
  by (auto simp add: checkCurrentTimeExistsInExcludeWindow_def InExcludeWindow_open_def Let_def)

lemma prevScheduledTime_0509:
  "prevScheduledTime Map.empty ''180'' ''13:00'' (309 * Nanos_Minute)
   = Some (Inr (240 * Nanos_Minute,
        [cacheKey ''180'' ''13:00'' \<mapsto> [60, 240, 420, 600, 780, 960, 1140, 1320]]))"
proof -
  have "computed ''180'' ''13:00'' = Some [60, 240, 420, 600, 780, 960, 1140, 1320]"
    using computed_normal [of "''180''" "''13:00''"]
    by (simp add: Atoi_180 MinsOfDay_1300 slots_780_180)
  then have st: "scheduledTimes Map.empty ''180'' ''13:00''
                 = Some ([60, 240, 420, 600, 780, 960, 1140, 1320],
                         [cacheKey ''180'' ''13:00'' \<mapsto> [60, 240, 420, 600, 780, 960, 1140, 1320]])"
    by (simp add: scheduledTimes_miss_computed)
  have "GetElapsedMinsInThisDay (309 * Nanos_Minute) = 309"
    by (rule GetElapsedMinsInThisDay_of_minutes) simp_all
  moreover have "StartOfDay (309 * Nanos_Minute) = 0"
    by (simp add: StartOfDay_def Nanos_Day_def Nanos_Minute_def)
  moreover have "int64 (Nanos_Minute * 240) = 240 * Nanos_Minute"
    by (simp add: int64_def Nanos_Minute_def)
  ultimately show ?thesis
    by (simp add: prevScheduledTime_unfold [OF st] index_def)
qed

text \<open>
  C2 (as stated, refuted). The spec's exclude window is the closed interval. At 05:09 UTC,
  the first minute of the window 05:09 to 09:07, the current time lies in that window; with
  the three flags unset, the schedule 180 from 13:00 and a last upload created at midnight,
  \<open>canCreateUpload\<close> does not answer with the exclude window error: it answers true,
  since the previous scheduled time is 04:00.
\<close>

theorem canCreateUpload_window_bound_counterexample:
  "InExcludeWindow_spec (309 * Nanos_Minute) ''05:09'' ''09:07''
   \<and> excludeWindowStartEndTimes
        [ExcludeWindowStartTime \<mapsto> StringValue ''05:09'',
         ExcludeWindowEndTime \<mapsto> StringValue ''09:07''] = (''05:09'', ''09:07'')
   \<and> canCreateUpload False Map.empty
        \<lparr>triggerStore = {}, warehouseSyncFreqIgnore = False, now = (\<lambda>k. 309 * Nanos_Minute),
          LastCreatedAt = (\<lambda>a b. Inr 0), uploadFrequencyExceeded = (\<lambda>a b. False)\<rparr>
        \<lparr>Identifier = ''POSTGRES:source:destination'', SourceID = ''source'',
          DestinationID = ''destination'',
          ExcludeWindow = [ExcludeWindowStartTime \<mapsto> StringValue ''05:09'',
                           ExcludeWindowEndTime \<mapsto> StringValue ''09:07''],
          SyncFrequency = ''180'', SyncStartAt = ''13:00''\<rparr>
       = Some (Inr ((True, None),
            [cacheKey ''180'' ''13:00'' \<mapsto> [60, 240, 420, 600, 780, 960, 1140, 1320]]))"
proof -
  have a: "InExcludeWindow_spec (309 * Nanos_Minute) ''05:09'' ''09:07''"
    by (simp add: InExcludeWindow_spec_def MinsOfDay_0509 MinsOfDay_0907
        GetElapsedMinsInThisDay_of_minutes)
  have b: "\<not> checkCurrentTimeExistsInExcludeWindow (309 * Nanos_Minute) ''05:09'' ''09:07''"
    by (simp add: checkCurrentTimeExistsInExcludeWindow_def MinsOfDay_0509 MinsOfDay_0907
        GetElapsedMinsInThisDay_of_minutes)
  have c: "(0 :: int) < 240 * Nanos_Minute" by (simp add: Nanos_Minute_def)
  show ?thesis
    using a b c
    by (simp add: canCreateUpload_def Let_def excludeWindowStartEndTimes_0509_0907
        prevScheduledTime_0509 Before_def)
qed

text \<open>
  C2 (amended). Take a run with \<open>StartUploadAlways\<close> unset, no pending trigger for the
  warehouse and \<open>warehouseSyncFreqIgnore\<close> unset. If both bounds of the configured exclude
  window are non-empty and the minute-of-day of the first reading of the clock lies strictly
  between them (after the start or before the end when the window wraps past midnight),
  the answer is false with the error
  \<open>exclude window: current time exists in exclude window\<close>; so it is for the window 05:09
  to 09:07 at 06:19. Otherwise, when both schedule strings are non-empty, the answer is true
  exactly when \<open>prevScheduledTime\<close> returns, for the second reading of the clock, an
  instant that \<open>LastCreatedAt\<close> is strictly before.
\<close>

theorem canCreateUpload_open_window_then_schedule:
  assumes "Identifier w \<notin> triggerStore r" and "\<not> warehouseSyncFreqIgnore r"
  shows
   "(InExcludeWindow_open (now r 0)
        (fst (excludeWindowStartEndTimes (ExcludeWindow w)))
        (snd (excludeWindowStartEndTimes (ExcludeWindow w)))
      \<longrightarrow> canCreateUpload False c r w
            = Some (Inr ((False, Some (Err ''exclude window: current time exists in exclude window'')), c)))
    \<and> (ExcludeWindow w = [ExcludeWindowStartTime \<mapsto> StringValue ''05:09'',
                           ExcludeWindowEndTime \<mapsto> StringValue ''09:07'']
        \<and> GetElapsedMinsInThisDay (now r 0) = 6 * 60 + 19
      \<longrightarrow> canCreateUpload False c r w
            = Some (Inr ((False, Some (Err ''exclude window: current time exists in exclude window'')), c)))
    \<and> (\<not> InExcludeWindow_open (now r 0)
            (fst (excludeWindowStartEndTimes (ExcludeWindow w)))
            (snd (excludeWindowStartEndTimes (ExcludeWindow w)))
        \<and> SyncFrequency w \<noteq> [] \<and> SyncStartAt w \<noteq> []
      \<longrightarrow> ((\<exists>e c'. canCreateUpload False c r w = Some (Inr ((True, e), c')))
            \<longleftrightarrow> (\<exists>p c' last.
                   prevScheduledTime c (SyncFrequency w) (SyncStartAt w) (now r 1) = Some (Inr (p, c'))
                   \<and> LastCreatedAt r (SourceID w) (DestinationID w) = Inr last
                   \<and> last < p)))"
proof (intro conjI impI)
  assume "InExcludeWindow_open (now r 0)
        (fst (excludeWindowStartEndTimes (ExcludeWindow w)))
        (snd (excludeWindowStartEndTimes (ExcludeWindow w)))"
  then show "canCreateUpload False c r w
            = Some (Inr ((False, Some (Err ''exclude window: current time exists in exclude window'')), c))"
    using assms
    by (simp add: canCreateUpload_def Let_def split_beta
        checkCurrentTimeExistsInExcludeWindow_eq_open)
next
  assume a: "ExcludeWindow w = [ExcludeWindowStartTime \<mapsto> StringValue ''05:09'',
                           ExcludeWindowEndTime \<mapsto> StringValue ''09:07'']
        \<and> GetElapsedMinsInThisDay (now r 0) = 6 * 60 + 19"
  then have "checkCurrentTimeExistsInExcludeWindow (now r 0) ''05:09'' ''09:07''"
    by (simp add: checkCurrentTimeExistsInExcludeWindow_def MinsOfDay_0509 MinsOfDay_0907)
  then show "canCreateUpload False c r w
            = Some (Inr ((False, Some (Err ''exclude window: current time exists in exclude window'')), c))"
    using assms a by (simp add: canCreateUpload_def Let_def excludeWindowStartEndTimes_0509_0907)
next
  assume a: "\<not> InExcludeWindow_open (now r 0)
            (fst (excludeWindowStartEndTimes (ExcludeWindow w)))
            (snd (excludeWindowStartEndTimes (ExcludeWindow w)))
        \<and> SyncFrequency w \<noteq> [] \<and> SyncStartAt w \<noteq> []"
  have u: "canCreateUpload False c r w =
        (case prevScheduledTime c (SyncFrequency w) (SyncStartAt w) (now r 1) of
           None \<Rightarrow> None
         | Some (Inl p) \<Rightarrow> Some (Inl p)
         | Some (Inr (prevScheduled, cache')) \<Rightarrow>
             (case LastCreatedAt r (SourceID w) (DestinationID w) of
                Inl err \<Rightarrow> Some (Inr ((False, Some err), cache'))
              | Inr lastUploadCreatedAt \<Rightarrow>
                  if Before lastUploadCreatedAt prevScheduled
                  then Some (Inr ((True, None), cache'))
                  else Some (Inr ((False, Some (Err ''before scheduled time'')), cache'))))"
    using assms a
    by (simp add: canCreateUpload_def Let_def split_beta
        checkCurrentTimeExistsInExcludeWindow_eq_open)
  show "(\<exists>e c'. canCreateUpload False c r w = Some (Inr ((True, e), c')))
            \<longleftrightarrow> (\<exists>p c' last.
                   prevScheduledTime c (SyncFrequency w) (SyncStartAt w) (now r 1) = Some (Inr (p, c'))
                   \<and> LastCreatedAt r (SourceID w) (DestinationID w) = Inr last
                   \<and> last < p)"
    unfolding u by (auto simp add: Before_def split: option.splits sum.splits if_splits)
qed

theorem canCreateUpload_open_window_then_schedule_witness:
  "''POSTGRES:source:destination'' \<notin> ({} :: string set)
   \<and> InExcludeWindow_open (379 * Nanos_Minute) ''05:09'' ''09:07''
   \<and> GetElapsedMinsInThisDay (379 * Nanos_Minute) = 6 * 60 + 19
   \<and> canCreateUpload False Map.empty
        \<lparr>triggerStore = {}, warehouseSyncFreqIgnore = False, now = (\<lambda>k. 379 * Nanos_Minute),
          LastCreatedAt = (\<lambda>a b. Inr 0), uploadFrequencyExceeded = (\<lambda>a b. False)\<rparr>
        \<lparr>Identifier = ''POSTGRES:source:destination'', SourceID = ''source'',
          DestinationID = ''destination'',
          ExcludeWindow = [ExcludeWindowStartTime \<mapsto> StringValue ''05:09'',
                           ExcludeWindowEndTime \<mapsto> StringValue ''09:07''],
          SyncFrequency = ''180'', SyncStartAt = ''13:00''\<rparr>
       = Some (Inr ((False, Some (Err ''exclude window: current time exists in exclude window'')),
                    Map.empty))
   \<and> \<not> InExcludeWindow_open 64800000000000 [] []
   \<and> (0 :: int) < 57600000000000
   \<and> (\<exists>e c'. canCreateUpload False Map.empty
        \<lparr>triggerStore = {}, warehouseSyncFreqIgnore = False, now = (\<lambda>k. 64800000000000),
          LastCreatedAt = (\<lambda>a b. Inr 0), uploadFrequencyExceeded = (\<lambda>a b. False)\<rparr>
        \<lparr>Identifier = ''POSTGRES:source:destination'', SourceID = ''source'',
          DestinationID = ''destination'', ExcludeWindow = Map.empty,
          SyncFrequency = ''180'', SyncStartAt = ''13:00''\<rparr>
       = Some (Inr ((True, e), c')))"
proof -
  let ?r1 = "\<lparr>triggerStore = {}, warehouseSyncFreqIgnore = False, now = (\<lambda>k. 379 * Nanos_Minute),
          LastCreatedAt = (\<lambda>a b. Inr 0), uploadFrequencyExceeded = (\<lambda>a b. False)\<rparr>"
  let ?w1 = "\<lparr>Identifier = ''POSTGRES:source:destination'', SourceID = ''source'',
          DestinationID = ''destination'',
          ExcludeWindow = [ExcludeWindowStartTime \<mapsto> StringValue ''05:09'',
                           ExcludeWindowEndTime \<mapsto> StringValue ''09:07''],
          SyncFrequency = ''180'', SyncStartAt = ''13:00''\<rparr>"
  let ?r2 = "\<lparr>triggerStore = {}, warehouseSyncFreqIgnore = False, now = (\<lambda>k. 64800000000000),
          LastCreatedAt = (\<lambda>a b. Inr 0), uploadFrequencyExceeded = (\<lambda>a b. False)\<rparr>"
  let ?w2 = "\<lparr>Identifier = ''POSTGRES:source:destination'', SourceID = ''source'',
          DestinationID = ''destination'', ExcludeWindow = Map.empty,
          SyncFrequency = ''180'', SyncStartAt = ''13:00''\<rparr>"
  have g: "GetElapsedMinsInThisDay (379 * Nanos_Minute) = 6 * 60 + 19"
    using GetElapsedMinsInThisDay_of_minutes [of 379] by simp
  have o: "InExcludeWindow_open (379 * Nanos_Minute) ''05:09'' ''09:07''"
    using g by (simp add: InExcludeWindow_open_def MinsOfDay_0509 MinsOfDay_0907)
  have e: "excludeWindowStartEndTimes Map.empty = ([], [])"
    by (simp add: excludeWindowStartEndTimes_def)
  have n: "\<not> InExcludeWindow_open 64800000000000 [] []"
    by (simp add: InExcludeWindow_open_def)
  have first: "canCreateUpload False Map.empty ?r1 ?w1
       = Some (Inr ((False, Some (Err ''exclude window: current time exists in exclude window'')),
                    Map.empty))"
    using canCreateUpload_open_window_then_schedule [of ?w1 ?r1 Map.empty] o
    by (simp add: excludeWindowStartEndTimes_0509_0907)
  have second: "\<exists>e c'. canCreateUpload False Map.empty ?r2 ?w2 = Some (Inr ((True, e), c'))"
    using canCreateUpload_open_window_then_schedule [of ?w2 ?r2 Map.empty] n e
      prevScheduledTime_1800
    by simp
  show ?thesis using g o n first second by simp
qed

section \<open>The decimal numbers the float parser accepts\<close>

lemma takeWhile_stop:
  "list_all P xs \<Longrightarrow> ys = [] \<or> \<not> P (hd ys) \<Longrightarrow> takeWhile P (xs @ ys) = xs"
  by (induction xs) (auto simp add: takeWhile_eq_Nil_iff)

lemma dropWhile_stop:
  "list_all P xs \<Longrightarrow> ys = [] \<or> \<not> P (hd ys) \<Longrightarrow> dropWhile P (xs @ ys) = ys"
  by (induction xs) (auto simp add: dropWhile_eq_self_iff)

lemma list_all_takeWhile: "list_all P (takeWhile P xs)"
  by (induction xs) auto

lemma dropWhile_hd: "dropWhile P xs = [] \<or> \<not> P (hd (dropWhile P xs))"
  using hd_dropWhile [of P xs] by blast

lemma not_digit_signs:
  "\<not> is_digit CHR ''-''" "\<not> is_digit CHR ''+''" "\<not> is_digit CHR ''.''"
  "\<not> is_digit CHR ''e''" "\<not> is_digit CHR ''E''" "\<not> is_digit CHR ''Z''"
  by (simp_all add: is_digit_def)

lemma parse_exponent_iff:
  "(\<exists>e. parse_exponent ex = Some e) \<longleftrightarrow> ex = [] \<or> is_decimal_exponent ex"
proof
  assume "\<exists>e. parse_exponent ex = Some e"
  then obtain e where p: "parse_exponent ex = Some e" ..
  show "ex = [] \<or> is_decimal_exponent ex"
  proof (cases ex)
    case Nil
    then show ?thesis by simp
  next
    case (Cons c ds)
    then have c: "c = CHR ''e'' \<or> c = CHR ''E''"
      using p by (auto simp add: parse_exponent_def split: if_splits)
    then obtain d cs where ds: "ds = d # cs"
      using p Cons by (cases ds) (auto simp add: parse_exponent_def)
    have "\<exists>sg ds'. ds = sg @ ds' \<and> is_sign sg \<and> ds' \<noteq> [] \<and> list_all is_digit ds'"
    proof (cases "d = CHR ''-'' \<or> d = CHR ''+''")
      case True
      then have "cs \<noteq> [] \<and> list_all is_digit cs"
        using p Cons c ds by (auto simp add: parse_exponent_def split: if_splits)
      moreover have "ds = [d] @ cs" using ds by simp
      moreover have "is_sign [d]" using True by (auto simp add: is_sign_def)
      ultimately show ?thesis by blast
    next
      case False
      then have "list_all is_digit ds"
        using p Cons c ds by (auto simp add: parse_exponent_def split: if_splits)
      moreover have "ds = [] @ ds" by simp
      moreover have "is_sign []" by (simp add: is_sign_def)
      moreover have "ds \<noteq> []" using ds by simp
      ultimately show ?thesis by blast
    qed
    then show ?thesis using Cons c by (auto simp add: is_decimal_exponent_def)
  qed
next
  assume "ex = [] \<or> is_decimal_exponent ex"
  then show "\<exists>e. parse_exponent ex = Some e"
  proof
    assume "ex = []"
    then show ?thesis by (simp add: parse_exponent_def)
  next
    assume "is_decimal_exponent ex"
    then obtain c sg ds where ex: "ex = c # sg @ ds" and c: "c = CHR ''e'' \<or> c = CHR ''E''"
      and sg: "is_sign sg" and ds: "ds \<noteq> []" "list_all is_digit ds"
      by (auto simp add: is_decimal_exponent_def)
    obtain d ds' where dd: "ds = d # ds'" using ds by (cases ds) auto
    then have d: "d \<noteq> CHR ''-''" "d \<noteq> CHR ''+''"
      using ds not_digit_signs by auto
    from sg show ?thesis
      unfolding is_sign_def
    proof (elim disjE)
      assume "sg = []"
      then show ?thesis using ex c ds dd d by (auto simp add: parse_exponent_def)
    next
      assume "sg = ''+''"
      then show ?thesis using ex c ds by (auto simp add: parse_exponent_def)
    next
      assume "sg = ''-''"
      then show ?thesis using ex c ds by (auto simp add: parse_exponent_def)
    qed
  qed
qed

lemma exponent_hd: "is_decimal_exponent ex \<Longrightarrow> \<not> is_digit (hd ex) \<and> hd ex \<noteq> CHR ''.''"
  by (auto simp add: is_decimal_exponent_def is_digit_def)

lemma parse_unsigned_decimal_point:
  "dropWhile is_digit s = CHR ''.'' # cs \<Longrightarrow>
   parse_unsigned_decimal s =
     (if takeWhile is_digit s = [] \<and> takeWhile is_digit cs = [] then None
      else (case parse_exponent (dropWhile is_digit cs) of
              None \<Rightarrow> None
            | Some e \<Rightarrow> Some (nat (digits_value 0 (takeWhile is_digit s @ takeWhile is_digit cs)),
                               e - int (length (takeWhile is_digit cs)))))"
  by (simp add: parse_unsigned_decimal_def Let_def split: option.splits)

lemma parse_unsigned_decimal_no_point:
  assumes "dropWhile is_digit s = [] \<or> hd (dropWhile is_digit s) \<noteq> CHR ''.''"
  shows "parse_unsigned_decimal s =
     (if takeWhile is_digit s = [] then None
      else (case parse_exponent (dropWhile is_digit s) of
              None \<Rightarrow> None
            | Some e \<Rightarrow> Some (nat (digits_value 0 (takeWhile is_digit s)), e)))"
proof (cases "dropWhile is_digit s")
  case Nil
  then show ?thesis
    by (simp add: parse_unsigned_decimal_def Let_def del: dropWhile_eq_Nil_conv split: option.splits)
next
  case (Cons c cs)
  then have "c \<noteq> CHR ''.''" using assms by simp
  then show ?thesis using Cons by (simp add: parse_unsigned_decimal_def Let_def split: option.splits)
qed

lemma parse_unsigned_decimal_iff:
  "(\<exists>v. parse_unsigned_decimal s = Some v)
   \<longleftrightarrow> (\<exists>ip fp ex. s = ip @ fp @ ex \<and> list_all is_digit ip
        \<and> (fp = [] \<or> (\<exists>ds. fp = CHR ''.'' # ds \<and> list_all is_digit ds))
        \<and> (ip \<noteq> [] \<or> 1 < length fp)
        \<and> (ex = [] \<or> is_decimal_exponent ex))"
  (is "?L \<longleftrightarrow> ?R")
proof
  assume ?L
  then obtain v where p: "parse_unsigned_decimal s = Some v" ..
  let ?ip = "takeWhile is_digit s"
  let ?r = "dropWhile is_digit s"
  have s: "s = ?ip @ ?r" by simp
  have ip: "list_all is_digit ?ip" by (rule list_all_takeWhile)
  show ?R
  proof (cases "\<exists>cs. ?r = CHR ''.'' # cs")
    case True
    then obtain cs where r: "?r = CHR ''.'' # cs" ..
    let ?fp = "CHR ''.'' # takeWhile is_digit cs"
    let ?ex = "dropWhile is_digit cs"
    note u = p [unfolded parse_unsigned_decimal_point [OF r]]
    have 1: "s = ?ip @ ?fp @ ?ex" using s r by simp
    have 2: "?fp = [] \<or> (\<exists>ds. ?fp = CHR ''.'' # ds \<and> list_all is_digit ds)"
      by (simp add: list_all_takeWhile)
    have 3: "?ip \<noteq> [] \<or> 1 < length ?fp"
      using u by (cases "takeWhile is_digit cs") (simp_all split: if_splits)
    have "\<exists>e. parse_exponent ?ex = Some e"
      using u by (cases "parse_exponent ?ex") (simp_all split: if_splits)
    then have 4: "?ex = [] \<or> is_decimal_exponent ?ex" by (simp only: parse_exponent_iff)
    show ?thesis
      by (rule exI [of _ ?ip], rule exI [of _ ?fp], rule exI [of _ ?ex]) (intro conjI 1 ip 2 3 4)
  next
    case False
    then have "?r = [] \<or> hd ?r \<noteq> CHR ''.''" by (cases ?r) simp_all
    note u = p [unfolded parse_unsigned_decimal_no_point [OF this]]
    have 1: "s = ?ip @ [] @ ?r" by simp
    have 2: "([] :: string) = [] \<or> (\<exists>ds. [] = CHR ''.'' # ds \<and> list_all is_digit ds)" by simp
    have 3: "?ip \<noteq> [] \<or> 1 < length ([] :: string)"
      using u by (simp split: if_splits)
    have "\<exists>e. parse_exponent ?r = Some e"
      using u by (cases "parse_exponent ?r") (simp_all split: if_splits)
    then have 4: "?r = [] \<or> is_decimal_exponent ?r" by (simp only: parse_exponent_iff)
    show ?thesis
      by (rule exI [of _ ?ip], rule exI [of _ "[]"], rule exI [of _ ?r]) (intro conjI 1 ip 2 3 4)
  qed
next
  assume ?R
  then obtain ip fp ex where s: "s = ip @ fp @ ex" and ip: "list_all is_digit ip"
    and fp: "fp = [] \<or> (\<exists>ds. fp = CHR ''.'' # ds \<and> list_all is_digit ds)"
    and ne: "ip \<noteq> [] \<or> 1 < length fp"
    and ex: "ex = [] \<or> is_decimal_exponent ex"
    by (elim exE conjE)
  have exh: "ex = [] \<or> \<not> is_digit (hd ex)" using ex exponent_hd by blast
  have exp: "ex = [] \<or> hd ex \<noteq> CHR ''.''" using ex exponent_hd by blast
  obtain e where e: "parse_exponent ex = Some e" using ex parse_exponent_iff [of ex] by blast
  from fp show ?L
  proof
    assume f: "fp = []"
    then have t: "takeWhile is_digit s = ip" "dropWhile is_digit s = ex"
      using s ip exh by (simp_all add: takeWhile_stop dropWhile_stop)
    have "dropWhile is_digit s = [] \<or> hd (dropWhile is_digit s) \<noteq> CHR ''.''"
      using exp t by simp
    note u = parse_unsigned_decimal_no_point [OF this]
    show ?thesis using ne f e unfolding u t by simp
  next
    assume "\<exists>ds. fp = CHR ''.'' # ds \<and> list_all is_digit ds"
    then obtain ds where f: "fp = CHR ''.'' # ds" and ds: "list_all is_digit ds" by blast
    have "fp @ ex = [] \<or> \<not> is_digit (hd (fp @ ex))" using f not_digit_signs by simp
    then have t: "takeWhile is_digit s = ip" "dropWhile is_digit s = CHR ''.'' # ds @ ex"
      using s ip f takeWhile_stop [of is_digit ip "fp @ ex"] dropWhile_stop [of is_digit ip "fp @ ex"]
      by simp_all
    have w: "takeWhile is_digit (ds @ ex) = ds" "dropWhile is_digit (ds @ ex) = ex"
      using ds exh by (simp_all add: takeWhile_stop dropWhile_stop)
    note u = parse_unsigned_decimal_point [OF t(2)]
    show ?thesis using ne f e unfolding u t w by auto
  qed
qed

lemma parse_decimal_iff: "(\<exists>v. parse_decimal s = Some v) \<longleftrightarrow> is_decimal_literal s"
proof
  assume "\<exists>v. parse_decimal s = Some v"
  then obtain v where p: "parse_decimal s = Some v" ..
  then obtain c cs where s: "s = c # cs" by (cases s) (auto simp add: parse_decimal_def)
  show "is_decimal_literal s"
  proof (cases "c = CHR ''-'' \<or> c = CHR ''+''")
    case True
    then have "\<exists>v. parse_unsigned_decimal cs = Some v"
      using p s by (auto simp add: parse_decimal_def)
    then obtain ip fp ex where "cs = ip @ fp @ ex \<and> list_all is_digit ip
        \<and> (fp = [] \<or> (\<exists>ds. fp = CHR ''.'' # ds \<and> list_all is_digit ds))
        \<and> (ip \<noteq> [] \<or> 1 < length fp)
        \<and> (ex = [] \<or> is_decimal_exponent ex)"
      unfolding parse_unsigned_decimal_iff by blast
    moreover have "is_sign [c]" using True by (auto simp add: is_sign_def)
    moreover have "s = [c] @ cs" using s by simp
    ultimately show ?thesis unfolding is_decimal_literal_def by blast
  next
    case False
    then have "\<exists>v. parse_unsigned_decimal s = Some v"
      using p s by (auto simp add: parse_decimal_def)
    then obtain ip fp ex where "s = ip @ fp @ ex \<and> list_all is_digit ip
        \<and> (fp = [] \<or> (\<exists>ds. fp = CHR ''.'' # ds \<and> list_all is_digit ds))
        \<and> (ip \<noteq> [] \<or> 1 < length fp)
        \<and> (ex = [] \<or> is_decimal_exponent ex)"
      unfolding parse_unsigned_decimal_iff by blast
    moreover have "is_sign []" by (simp add: is_sign_def)
    moreover have "s = [] @ s" by simp
    ultimately show ?thesis unfolding is_decimal_literal_def by metis
  qed
next
  assume "is_decimal_literal s"
  then obtain sg ip fp ex where s: "s = sg @ ip @ fp @ ex" and sg: "is_sign sg"
    and r: "list_all is_digit ip
        \<and> (fp = [] \<or> (\<exists>ds. fp = CHR ''.'' # ds \<and> list_all is_digit ds))
        \<and> (ip \<noteq> [] \<or> 1 < length fp)
        \<and> (ex = [] \<or> is_decimal_exponent ex)"
    unfolding is_decimal_literal_def by blast
  then have u: "\<exists>v. parse_unsigned_decimal (ip @ fp @ ex) = Some v"
    unfolding parse_unsigned_decimal_iff by blast
  from sg show "\<exists>v. parse_decimal s = Some v"
    unfolding is_sign_def
  proof (elim disjE)
    assume e: "sg = []"
    from r obtain c cs where c: "ip @ fp @ ex = c # cs" "is_digit c \<or> c = CHR ''.''"
      by (cases ip) (auto simp add: list_all_iff)
    then have "c \<noteq> CHR ''-''" "c \<noteq> CHR ''+''" using not_digit_signs by auto
    then show ?thesis using u s e c by (auto simp add: parse_decimal_def)
  next
    assume "sg = ''+''"
    then show ?thesis using u s by (auto simp add: parse_decimal_def)
  next
    assume "sg = ''-''"
    then show ?thesis using u s by (auto simp add: parse_decimal_def)
  qed
qed

section \<open>The timestamps the datetime parser accepts\<close>

lemma length_2_conv: "length xs = 2 \<longleftrightarrow> (\<exists>a b. xs = [a, b])"
  by (auto simp add: length_Suc_conv numeral_2_eq_2)

lemma length_4_conv: "length xs = 4 \<longleftrightarrow> (\<exists>a b c d. xs = [a, b, c, d])"
  by (auto simp add: eval_nat_numeral length_Suc_conv)

lemma parse_zone_iff: "(\<exists>off. parse_zone z = Some off) \<longleftrightarrow> is_time_offset z"
proof
  assume "\<exists>off. parse_zone z = Some off"
  then obtain off where p: "parse_zone z = Some off" ..
  show "is_time_offset z"
  proof (cases "z = ''Z''")
    case True
    then show ?thesis by (simp add: is_time_offset_def)
  next
    case False
    then obtain sg h1 h2 c m1 m2 where z: "z = [sg, h1, h2, c, m1, m2]"
      using p by (auto simp add: parse_zone_def split: list.splits)
    then have c: "(sg = CHR ''+'' \<or> sg = CHR ''-'') \<and> c = CHR '':''
                   \<and> list_all is_digit [h1, h2, m1, m2]
                   \<and> digits_value 0 [h1, h2] < 24 \<and> digits_value 0 [m1, m2] < 60"
      using p False by (simp add: parse_zone_def split: if_splits)
    have "z = sg # [h1, h2] @ '':'' @ [m1, m2]" using z c by simp
    moreover have "length [h1, h2] = 2" "length [m1, m2] = 2" by simp_all
    moreover have "list_all is_digit ([h1, h2] @ [m1, m2])" using c by simp
    ultimately show ?thesis unfolding is_time_offset_def using c by blast
  qed
next
  assume "is_time_offset z"
  then show "\<exists>off. parse_zone z = Some off"
    unfolding is_time_offset_def
  proof
    assume "z = ''Z''"
    then show ?thesis by (simp add: parse_zone_def)
  next
    assume "\<exists>sg zh zm. z = sg # zh @ '':'' @ zm \<and> (sg = CHR ''+'' \<or> sg = CHR ''-'')
            \<and> length zh = 2 \<and> length zm = 2 \<and> list_all is_digit (zh @ zm)
            \<and> digits_value 0 zh < 24 \<and> digits_value 0 zm < 60"
    then obtain sg zh zm where z: "z = sg # zh @ '':'' @ zm"
      and sg: "sg = CHR ''+'' \<or> sg = CHR ''-''"
      and l: "length zh = 2" "length zm = 2"
      and r: "list_all is_digit (zh @ zm)" "digits_value 0 zh < 24" "digits_value 0 zm < 60"
      by (elim exE conjE)
    obtain h1 h2 m1 m2 where e: "zh = [h1, h2]" "zm = [m1, m2]"
      using l unfolding length_2_conv by (elim exE)
    have "z = [sg, h1, h2, CHR '':'', m1, m2]" using z e by simp
    moreover have "z \<noteq> ''Z''" using z by simp
    ultimately show ?thesis using sg r e by (simp add: parse_zone_def)
  qed
qed

lemma offset_hd: "is_time_offset z \<Longrightarrow> z \<noteq> [] \<and> \<not> is_digit (hd z) \<and> hd z \<noteq> CHR ''.''"
  by (auto simp add: is_time_offset_def is_digit_def)

lemma drop_piece:
  assumes "m + 2 < length s"
  shows "drop m s = take 2 (drop m s) @ s ! (m + 2) # drop (m + 3) s"
proof -
  have "drop m s = take 2 (drop m s) @ drop 2 (drop m s)"
    by (rule append_take_drop_id [symmetric])
  also have "drop 2 (drop m s) = drop (m + 2) s" by (simp add: add.commute)
  also have "\<dots> = s ! (m + 2) # drop (Suc (m + 2)) s"
    using assms by (simp add: Cons_nth_drop_Suc)
  finally show ?thesis by (simp add: numeral_3_eq_3)
qed

lemma rfc3339_layout:
  assumes "20 \<le> length s"
  shows "s = take 4 s @ [s ! 4] @ take 2 (drop 5 s) @ [s ! 7] @ take 2 (drop 8 s) @ [s ! 10]
             @ take 2 (drop 11 s) @ [s ! 13] @ take 2 (drop 14 s) @ [s ! 16]
             @ take 2 (drop 17 s) @ drop 19 s"
proof -
  have a: "s = take 4 s @ s ! 4 # drop 5 s"
    using assms id_take_nth_drop [of 4 s] by simp
  have b: "drop 5 s = take 2 (drop 5 s) @ s ! 7 # drop 8 s"
    using assms drop_piece [of 5 s] by simp
  have c: "drop 8 s = take 2 (drop 8 s) @ s ! 10 # drop 11 s"
    using assms drop_piece [of 8 s] by simp
  have d: "drop 11 s = take 2 (drop 11 s) @ s ! 13 # drop 14 s"
    using assms drop_piece [of 11 s] by simp
  have e: "drop 14 s = take 2 (drop 14 s) @ s ! 16 # drop 17 s"
    using assms drop_piece [of 14 s] by simp
  have "drop 2 (drop 17 s) = drop 19 s" by simp
  then have f: "drop 17 s = take 2 (drop 17 s) @ drop 19 s"
    using append_take_drop_id [of 2 "drop 17 s"] by (simp only:)
  show ?thesis
    apply (subst a)
    apply (subst b)
    apply (subst c)
    apply (subst d)
    apply (subst e)
    apply (subst f)
    apply simp
    done
qed

lemma parse_rfc3339_iff: "(\<exists>t. parse_rfc3339 s = Some t) \<longleftrightarrow> is_rfc3339 s"
proof
  assume "\<exists>t. parse_rfc3339 s = Some t"
  then obtain t where p: "parse_rfc3339 s = Some t" ..
  have len: "20 \<le> length s"
    using p by (simp add: parse_rfc3339_def split: if_splits)
  let ?y = "take 4 s" and ?mo = "take 2 (drop 5 s)" and ?d = "take 2 (drop 8 s)"
  let ?h = "take 2 (drop 11 s)" and ?mi = "take 2 (drop 14 s)" and ?se = "take 2 (drop 17 s)"
  let ?rest = "drop 19 s"
  let ?fr = "case ?rest of c # cs \<Rightarrow> if c = CHR ''.'' then takeWhile is_digit cs else []
                     | [] \<Rightarrow> []"
  let ?z = "case ?rest of c # cs \<Rightarrow> if c = CHR ''.'' then dropWhile is_digit cs else ?rest
                    | [] \<Rightarrow> []"
  have c: "list_all is_digit (?y @ ?mo @ ?d @ ?h @ ?mi @ ?se)
                 \<and> s ! 4 = CHR ''-'' \<and> s ! 7 = CHR ''-'' \<and> s ! 10 = CHR ''T''
                 \<and> s ! 13 = CHR '':'' \<and> s ! 16 = CHR '':''
                 \<and> (hd ?rest = CHR ''.'' \<longrightarrow> ?fr \<noteq> [])
                 \<and> 1 \<le> digits_value 0 ?mo \<and> digits_value 0 ?mo \<le> 12
                 \<and> 1 \<le> digits_value 0 ?d
                 \<and> digits_value 0 ?d \<le> days_in_month (digits_value 0 ?y) (digits_value 0 ?mo)
                 \<and> digits_value 0 ?h < 24 \<and> digits_value 0 ?mi < 60 \<and> digits_value 0 ?se < 60"
    using p len unfolding parse_rfc3339_def Let_def by (simp split: if_splits)
  have "\<exists>off. parse_zone ?z = Some off"
    using p len c unfolding parse_rfc3339_def Let_def by (simp split: if_splits option.splits)
  then have z: "is_time_offset ?z" by (simp only: parse_zone_iff)
  obtain r rs where rest: "?rest = r # rs" using len by (cases ?rest) simp_all
  define fr where "fr = (if r = CHR ''.'' then CHR ''.'' # takeWhile is_digit rs else [])"
  have frz: "?rest = fr @ ?z" unfolding rest fr_def by simp
  have fr: "fr = [] \<or> (\<exists>ds. fr = CHR ''.'' # ds \<and> ds \<noteq> [] \<and> list_all is_digit ds)"
    using c unfolding rest fr_def by (simp add: list_all_takeWhile)
  have l: "length ?y = 4" "length ?mo = 2" "length ?d = 2" "length ?h = 2" "length ?mi = 2"
    "length ?se = 2"
    using len by simp_all
  have s: "s = ?y @ ''-'' @ ?mo @ ''-'' @ ?d @ ''T'' @ ?h @ '':'' @ ?mi @ '':'' @ ?se @ fr @ ?z"
    using rfc3339_layout [OF len] c frz by simp
  show "is_rfc3339 s"
    unfolding is_rfc3339_def
    apply (rule exI [of _ ?y], rule exI [of _ ?mo], rule exI [of _ ?d], rule exI [of _ ?h])
    apply (rule exI [of _ ?mi], rule exI [of _ ?se], rule exI [of _ fr], rule exI [of _ ?z])
    apply (intro conjI s l fr z)
    using c apply simp_all
    done
next
  assume "is_rfc3339 s"
  then obtain y mo d h mi se fr z where
    s: "s = y @ ''-'' @ mo @ ''-'' @ d @ ''T'' @ h @ '':'' @ mi @ '':'' @ se @ fr @ z"
    and l: "length y = 4" "length mo = 2" "length d = 2" "length h = 2" "length mi = 2"
      "length se = 2"
    and dg: "list_all is_digit (y @ mo @ d @ h @ mi @ se)"
    and rg: "1 \<le> digits_value 0 mo" "digits_value 0 mo \<le> 12" "1 \<le> digits_value 0 d"
      "digits_value 0 d \<le> days_in_month (digits_value 0 y) (digits_value 0 mo)"
      "digits_value 0 h < 24" "digits_value 0 mi < 60" "digits_value 0 se < 60"
    and fr: "fr = [] \<or> (\<exists>ds. fr = CHR ''.'' # ds \<and> ds \<noteq> [] \<and> list_all is_digit ds)"
    and z: "is_time_offset z"
    unfolding is_rfc3339_def by (elim exE conjE)
  obtain off where off: "parse_zone z = Some off" using z parse_zone_iff [of z] by blast
  have zh: "z \<noteq> []" "\<not> is_digit (hd z)" "hd z \<noteq> CHR ''.''" using offset_hd [OF z] by simp_all
  have len: "\<not> length s < 20" using s l zh by simp
  have t: "take 4 s = y" "take 2 (drop 5 s) = mo" "take 2 (drop 8 s) = d"
    "take 2 (drop 11 s) = h" "take 2 (drop 14 s) = mi" "take 2 (drop 17 s) = se"
    "drop 19 s = fr @ z"
    using l unfolding s by simp_all
  have n: "s ! 4 = CHR ''-''" "s ! 7 = CHR ''-''" "s ! 10 = CHR ''T''" "s ! 13 = CHR '':''"
    "s ! 16 = CHR '':''"
    using l unfolding s by (simp_all add: nth_append)
  have r: "(case fr @ z of c # cs \<Rightarrow> if c = CHR ''.'' then takeWhile is_digit cs else []
                     | [] \<Rightarrow> []) = drop 1 fr
           \<and> (case fr @ z of c # cs \<Rightarrow> if c = CHR ''.'' then dropWhile is_digit cs else fr @ z
                    | [] \<Rightarrow> []) = z
           \<and> (hd (fr @ z) = CHR ''.'' \<longrightarrow> drop 1 fr \<noteq> [])"
    using fr
  proof
    assume "fr = []"
    then show ?thesis using zh by (cases z) simp_all
  next
    assume "\<exists>ds. fr = CHR ''.'' # ds \<and> ds \<noteq> [] \<and> list_all is_digit ds"
    then obtain ds where f: "fr = CHR ''.'' # ds" "ds \<noteq> []" "list_all is_digit ds" by blast
    have "takeWhile is_digit (ds @ z) = ds" "dropWhile is_digit (ds @ z) = z"
      using f zh by (simp_all add: takeWhile_stop dropWhile_stop)
    then show ?thesis using f by simp
  qed
  show "\<exists>t. parse_rfc3339 s = Some t"
    unfolding parse_rfc3339_def Let_def t n using len dg rg r off by simp
qed

section \<open>Rounding to a double\<close>

lemma bit_length_0: "bit_length 0 = 0"
  by (simp add: bit_length.simps)

lemma bit_length_pos: "0 < n \<Longrightarrow> bit_length n = Suc (bit_length (n div 2))"
  by (subst bit_length.simps) simp

lemma bit_length_upper: "n < 2 ^ bit_length n"
proof (induction n rule: bit_length.induct)
  case (1 n)
  show ?case
  proof (cases "n = 0")
    case True
    then show ?thesis by (simp add: bit_length_0)
  next
    case False
    then have "n div 2 < 2 ^ bit_length (n div 2)" using 1 by simp
    then have "n < 2 * 2 ^ bit_length (n div 2)" by linarith
    then show ?thesis using False by (simp add: bit_length_pos)
  qed
qed

lemma bit_length_lower: "0 < n \<Longrightarrow> 2 ^ bit_length n \<le> 2 * n"
proof (induction n rule: bit_length.induct)
  case (1 n)
  show ?case
  proof (cases "n div 2 = 0")
    case True
    then have "n = 1" using 1(2) by linarith
    then show ?thesis by (simp add: bit_length_pos bit_length_0)
  next
    case False
    then have "2 ^ bit_length (n div 2) \<le> 2 * (n div 2)" using 1 by simp
    also have "\<dots> \<le> n" by simp
    finally show ?thesis using 1(2) by (simp add: bit_length_pos)
  qed
qed

lemma bit_length_eqI:
  assumes "2 ^ l \<le> n" and "n < 2 * 2 ^ l"
  shows "bit_length n = Suc l"
proof -
  have "(0 :: nat) < 2 ^ l" by simp
  then have pos: "0 < n" using assms(1) by linarith
  have "(2 :: nat) ^ l < 2 ^ bit_length n"
    using assms(1) bit_length_upper [of n] by linarith
  then have a: "l < bit_length n" by (simp add: power_strict_increasing_iff)
  have "(2 :: nat) ^ bit_length n < 2 ^ Suc (Suc l)"
    using assms(2) bit_length_lower [OF pos] by simp
  then have "bit_length n < Suc (Suc l)" by (simp only: power_strict_increasing_iff one_less_numeral_iff semiring_norm)
  then show ?thesis using a by simp
qed

lemma round_half_even_cases:
  assumes "0 < d"
  shows "(round_half_even n d = n div d \<and> 2 * (n mod d) \<le> d)
         \<or> (round_half_even n d = n div d + 1 \<and> d \<le> 2 * (n mod d))"
  by (auto simp add: round_half_even_def Let_def)

lemma round_half_even_error:
  assumes "0 < d"
  shows "2 * \<bar>int n - int (round_half_even n d) * int d\<bar> \<le> int d"
proof -
  have n: "int n = int (n div d) * int d + int (n mod d)"
    by (metis div_mult_mod_eq of_nat_add of_nat_mult)
  have r: "int (n mod d) < int d" using assms by simp
  from round_half_even_cases [OF assms, of n] show ?thesis
  proof
    assume a: "round_half_even n d = n div d \<and> 2 * (n mod d) \<le> d"
    then have "int n - int (round_half_even n d) * int d = int (n mod d)" using n by simp
    then show ?thesis using a by simp
  next
    assume a: "round_half_even n d = n div d + 1 \<and> d \<le> 2 * (n mod d)"
    then have "int n - int (round_half_even n d) * int d = int (n mod d) - int d"
      using n by (simp add: algebra_simps)
    moreover have "int d \<le> 2 * int (n mod d)" using a by linarith
    ultimately show ?thesis using r by simp
  qed
qed

lemma round_half_even_ge:
  assumes "0 < d" and "c * d \<le> n"
  shows "c \<le> round_half_even n d"
proof -
  have "c \<le> n div d" using assms by (simp add: less_eq_div_iff_mult_less_eq)
  then show ?thesis using round_half_even_cases [OF assms(1), of n] by linarith
qed

lemma round_half_even_le:
  assumes "0 < d" and "n \<le> c * d"
  shows "round_half_even n d \<le> c"
proof (cases "n = c * d")
  case True
  then show ?thesis using assms(1) by (simp add: round_half_even_def)
next
  case False
  then have "n < c * d" using assms(2) by simp
  then have "n div d < c" using assms(1) by (simp add: div_less_iff_less_mult)
  then show ?thesis using round_half_even_cases [OF assms(1), of n] by linarith
qed

lemma round_half_even_scale:
  assumes "0 < c"
  shows "round_half_even (n * c) (d * c) = round_half_even n d"
  using assms by (simp add: round_half_even_def Let_def mod_mult_mult2)

lemma round_half_even_nearest:
  assumes "0 < d"
  shows "\<bar>int n - int (round_half_even n d) * int d\<bar> \<le> \<bar>int n - int j * int d\<bar>"
proof (cases "j = round_half_even n d")
  case True
  then show ?thesis by simp
next
  case False
  define m where "m = round_half_even n d"
  have "\<bar>int j - int m\<bar> \<ge> 1" using False m_def by linarith
  then have "\<bar>int j - int m\<bar> * int d \<ge> 1 * int d"
    by (intro mult_right_mono) simp_all
  then have "int d \<le> \<bar>int j * int d - int m * int d\<bar>"
    by (simp add: abs_mult left_diff_distrib [symmetric])
  moreover have "2 * \<bar>int n - int m * int d\<bar> \<le> int d"
    unfolding m_def by (rule round_half_even_error [OF assms])
  moreover have "\<bar>int j * int d - int m * int d\<bar>
                 \<le> \<bar>int n - int m * int d\<bar> + \<bar>int n - int j * int d\<bar>"
    by (rule abs_triangle_ineq4 [of "int n - int m * int d" "int n - int j * int d", simplified])
  moreover have "D \<le> X \<Longrightarrow> 2 * A \<le> D \<Longrightarrow> X \<le> A + B \<Longrightarrow> A \<le> B" for A B D X :: int
    by linarith
  ultimately have "\<bar>int n - int m * int d\<bar> \<le> \<bar>int n - int j * int d\<bar>"
    by blast
  then show ?thesis by (simp only: m_def)
qed

lemma mantissa_upper:
  assumes "0 < b"
  shows "round_half_even n (b * 2 ^ (bit_length (n div b) - 53)) \<le> 2 ^ 53"
proof -
  define g where "g = bit_length (n div b) - 53"
  have "bit_length (n div b) \<le> g + 53" unfolding g_def by simp
  then have "(2 :: nat) ^ bit_length (n div b) \<le> 2 ^ (g + 53)"
    by (rule power_increasing) simp
  then have "n div b < 2 ^ (g + 53)" using bit_length_upper [of "n div b"] by linarith
  then have "n < 2 ^ (g + 53) * b" using assms by (simp add: div_less_iff_less_mult)
  then have "n \<le> 2 ^ 53 * (b * 2 ^ g)" by (simp add: power_add mult_ac)
  moreover have "0 < b * 2 ^ g" using assms by simp
  ultimately have "round_half_even n (b * 2 ^ g) \<le> 2 ^ 53" by (rule round_half_even_le [rotated])
  then show ?thesis unfolding g_def .
qed

lemma mantissa_lower:
  assumes "0 < b" and "0 < bit_length (n div b) - 53"
  shows "2 ^ 52 * (b * 2 ^ (bit_length (n div b) - 53)) \<le> n"
    and "2 ^ 52 \<le> round_half_even n (b * 2 ^ (bit_length (n div b) - 53))"
proof -
  define g where "g = bit_length (n div b) - 53"
  have l: "bit_length (n div b) = Suc (g + 52)" using assms(2) unfolding g_def by simp
  have "n div b \<noteq> 0" using l bit_length_0 by (metis nat.distinct(1))
  then have "2 ^ bit_length (n div b) \<le> 2 * (n div b)" by (simp add: bit_length_lower)
  then have "2 * 2 ^ (g + 52) \<le> 2 * (n div b)" unfolding l by (simp only: power_Suc)
  then have "2 ^ (g + 52) \<le> n div b" by linarith
  then have "2 ^ (g + 52) * b \<le> n" using assms(1) by (simp add: less_eq_div_iff_mult_less_eq)
  then have a: "2 ^ 52 * (b * 2 ^ g) \<le> n" by (simp add: power_add mult_ac)
  moreover have "0 < b * 2 ^ g" using assms by simp
  ultimately have "2 ^ 52 \<le> round_half_even n (b * 2 ^ g)" by (rule round_half_even_ge [rotated])
  then show "2 ^ 52 \<le> round_half_even n (b * 2 ^ (bit_length (n div b) - 53))"
    unfolding g_def .
  show "2 ^ 52 * (b * 2 ^ (bit_length (n div b) - 53)) \<le> n" using a unfolding g_def .
qed

lemma round_float64_Some:
  assumes "0 < b" and "round_float64 a b = Some (m, e)"
  shows "is_float64 m e"
    and "m * 2 ^ nat (e + 1074)
         = round_half_even (a * 2 ^ 1074) (b * 2 ^ (bit_length (a * 2 ^ 1074 div b) - 53))
           * 2 ^ (bit_length (a * 2 ^ 1074 div b) - 53)"
proof -
  define n where "n = a * 2 ^ 1074"
  define g where "g = bit_length (n div b) - 53"
  define m0 where "m0 = round_half_even n (b * 2 ^ g)"
  have u: "round_float64 a b =
             (if m0 = 2 ^ 53 then (if 2045 < g + 1 then None else Some (2 ^ 52, int (g + 1) - 1074))
              else if 2045 < g then None else Some (m0, int g - 1074))"
    unfolding round_float64_def Let_def n_def g_def m0_def ..
  have up: "m0 \<le> 2 ^ 53" unfolding m0_def g_def by (rule mantissa_upper [OF assms(1)])
  have lo: "0 < g \<Longrightarrow> 2 ^ 52 \<le> m0"
    unfolding m0_def g_def by (rule mantissa_lower(2) [OF assms(1)])
  have r: "is_float64 m e \<and> m * 2 ^ nat (e + 1074) = m0 * 2 ^ g"
  proof (cases "m0 = 2 ^ 53")
    case True
    then have g: "g + 1 \<le> 2045" and me: "m = 2 ^ 52" "e = int (g + 1) - 1074"
      using assms(2) unfolding u by (simp_all split: if_splits)
    have "nat (e + 1074) = Suc g" using me by simp
    then have "m * 2 ^ nat (e + 1074) = m0 * 2 ^ g" using me True by simp
    moreover have "is_float64 m e" using g me by (simp add: is_float64_def)
    ultimately show ?thesis by simp
  next
    case False
    then have g: "g \<le> 2045" and me: "m = m0" "e = int g - 1074"
      using assms(2) unfolding u by (simp_all split: if_splits)
    have "nat (e + 1074) = g" using me by simp
    then have "m * 2 ^ nat (e + 1074) = m0 * 2 ^ g" using me by simp
    moreover have "m0 < 2 ^ 53" using up False by linarith
    then have "is_float64 m e" using g me lo by (cases "g = 0") (auto simp add: is_float64_def)
    ultimately show ?thesis by simp
  qed
  show "is_float64 m e" using r ..
  show "m * 2 ^ nat (e + 1074)
         = round_half_even (a * 2 ^ 1074) (b * 2 ^ (bit_length (a * 2 ^ 1074 div b) - 53))
           * 2 ^ (bit_length (a * 2 ^ 1074 div b) - 53)"
    using r unfolding m0_def g_def n_def by simp
qed

lemma round_float64_nearest:
  assumes "0 < b" and "round_float64 a b = Some (m, e)" and "is_float64 m' e'"
  shows "\<bar>int a * 2 ^ 1074 - int m * 2 ^ nat (e + 1074) * int b\<bar>
         \<le> \<bar>int a * 2 ^ 1074 - int m' * 2 ^ nat (e' + 1074) * int b\<bar>"
proof -
  define n where "n = a * 2 ^ 1074"
  define g where "g = bit_length (n div b) - 53"
  define d where "d = b * 2 ^ g"
  define m0 where "m0 = round_half_even n d"
  define g' where "g' = nat (e' + 1074)"
  have d: "0 < d" using assms(1) unfolding d_def by simp
  have "m * 2 ^ nat (e + 1074) = m0 * 2 ^ g"
    using round_float64_Some(2) [OF assms(1,2)] unfolding m0_def d_def g_def n_def .
  then have "m * 2 ^ nat (e + 1074) * b = m0 * d" unfolding d_def by simp
  then have "int (m * 2 ^ nat (e + 1074) * b) = int (m0 * d)" by (rule arg_cong)
  then have M: "int m * 2 ^ nat (e + 1074) * int b = int m0 * int d" by simp
  have N: "int a * 2 ^ 1074 = int n" unfolding n_def by simp
  have near: "\<bar>int n - int m0 * int d\<bar> \<le> \<bar>int n - int j * int d\<bar>" for j
    unfolding m0_def by (rule round_half_even_nearest [OF d])
  have "\<bar>int n - int m0 * int d\<bar> \<le> \<bar>int n - int m' * 2 ^ g' * int b\<bar>"
  proof (cases "g \<le> g'")
    case True
    then have "(2 :: nat) ^ g' = 2 ^ (g' - g) * 2 ^ g" by (simp add: power_add [symmetric])
    then have "m' * 2 ^ g' * b = (m' * 2 ^ (g' - g)) * d" unfolding d_def by simp
    then have "int (m' * 2 ^ g' * b) = int ((m' * 2 ^ (g' - g)) * d)" by (rule arg_cong)
    then have "int m' * 2 ^ g' * int b = int (m' * 2 ^ (g' - g)) * int d"
      by (simp only: of_nat_mult of_nat_power of_nat_numeral)
    then show ?thesis using near [of "m' * 2 ^ (g' - g)"] by (simp only:)
  next
    case False
    then have g: "0 < g" "Suc g' \<le> g" by simp_all
    have lo: "2 ^ 52 * d \<le> n"
      using mantissa_lower(1) [OF assms(1), of n] g(1) unfolding d_def g_def by simp
    have "m' < 2 ^ 53" using assms(3) by (simp add: is_float64_def)
    then have "m' * 2 ^ g' < 2 ^ 53 * 2 ^ g'" by simp
    also have "\<dots> = 2 ^ 52 * 2 ^ Suc g'" by simp
    also have "\<dots> \<le> 2 ^ 52 * 2 ^ g"
      using g(2) by (intro mult_left_mono power_increasing) simp_all
    finally have "m' * 2 ^ g' * b < 2 ^ 52 * 2 ^ g * b" using assms(1) by simp
    then have "m' * 2 ^ g' * b < 2 ^ 52 * d" unfolding d_def by (simp add: mult_ac)
    then have "int (m' * 2 ^ g' * b) < int (2 ^ 52 * d)" by (simp only: of_nat_less_iff)
    then have lt: "int m' * 2 ^ g' * int b < 2 ^ 52 * int d" by simp
    have "int (2 ^ 52 * d) \<le> int n" using lo by (simp only: of_nat_le_iff)
    then have le: "2 ^ 52 * int d \<le> int n" by simp
    have "\<bar>int n - int m0 * int d\<bar> \<le> \<bar>int n - int (2 ^ 52) * int d\<bar>" by (rule near)
    then have "\<bar>int n - int m0 * int d\<bar> \<le> \<bar>int n - 2 ^ 52 * int d\<bar>" by simp
    moreover have "A \<le> \<bar>N - P\<bar> \<Longrightarrow> P \<le> N \<Longrightarrow> Q < P \<Longrightarrow> A \<le> \<bar>N - Q\<bar>" for A N P Q :: int
      by linarith
    ultimately show ?thesis using le lt by blast
  qed
  then show ?thesis unfolding M N g'_def .
qed

lemma round_float64_normal:
  assumes b: "0 < b" and k: "- 1022 \<le> k" "k \<le> 1023"
    and lo: "b * 2 ^ nat k \<le> a * 2 ^ nat (- k)"
    and hi: "a * 2 ^ nat (- k) < 2 * (b * 2 ^ nat k)"
  shows "round_float64 a b =
          (let m = round_half_even (a * 2 ^ nat (52 - k)) (b * 2 ^ nat (k - 52))
           in if m = 2 ^ 53 then (if k = 1023 then None else Some (2 ^ 52, k - 51))
              else Some (m, k - 52))"
proof -
  define j where "j = nat (k + 1074)"
  define n where "n = a * 2 ^ 1074"
  define g where "g = nat (k + 1022)"
  define x where "x = nat (52 - k)"
  define y where "y = nat (k - 52)"
  have "1074 + nat k = nat (- k) + j" unfolding j_def using k by linarith
  then have "(2 :: nat) ^ (1074 + nat k) = 2 ^ (nat (- k) + j)" by (rule arg_cong)
  then have sp: "(2 :: nat) ^ 1074 * 2 ^ nat k = 2 ^ nat (- k) * 2 ^ j" by (simp only: power_add)
  have "(b * 2 ^ nat k) * 2 ^ j \<le> (a * 2 ^ nat (- k)) * 2 ^ j"
    using lo by (rule mult_right_mono) simp
  also have "\<dots> = a * (2 ^ nat (- k) * 2 ^ j)" by (simp only: mult.assoc)
  also have "\<dots> = n * 2 ^ nat k" unfolding sp [symmetric] n_def by (simp only: mult.assoc)
  finally have "(b * 2 ^ j) * 2 ^ nat k \<le> n * 2 ^ nat k" by (simp only: mult_ac)
  then have l1: "2 ^ j * b \<le> n" by (simp add: mult.commute)
  have "(a * 2 ^ nat (- k)) * 2 ^ j < (2 * (b * 2 ^ nat k)) * 2 ^ j"
    using hi by (simp only: mult_less_cancel2) simp
  moreover have "(a * 2 ^ nat (- k)) * 2 ^ j = n * 2 ^ nat k"
    unfolding n_def by (simp only: mult.assoc sp)
  ultimately have "n * 2 ^ nat k < (2 * 2 ^ j * b) * 2 ^ nat k" by (simp only: mult_ac)
  then have h1: "n < 2 * 2 ^ j * b" by (simp only: mult_less_cancel2)
  have "2 ^ j \<le> n div b" using l1 b by (simp add: less_eq_div_iff_mult_less_eq)
  moreover have "n div b < 2 * 2 ^ j" using h1 b by (simp add: div_less_iff_less_mult)
  ultimately have bl: "bit_length (n div b) = Suc j" by (rule bit_length_eqI)
  have gj: "Suc j - 53 = g" unfolding j_def g_def using k by linarith
  have e: "x + (g - y) = 1074" "y + (g - y) = g"
    unfolding x_def y_def g_def using k by linarith+
  define c where "c = (2 :: nat) ^ (g - y)"
  have c: "0 < c" unfolding c_def by simp
  have "(2 :: nat) ^ 1074 = 2 ^ x * c" unfolding c_def power_add [symmetric] e ..
  then have n: "n = (a * 2 ^ x) * c" unfolding n_def by (simp only: mult.assoc)
  have "(2 :: nat) ^ g = 2 ^ y * c" unfolding c_def power_add [symmetric] e ..
  then have d: "b * 2 ^ g = (b * 2 ^ y) * c" by (simp only: mult.assoc)
  have r: "round_half_even n (b * 2 ^ g) = round_half_even (a * 2 ^ x) (b * 2 ^ y)"
    unfolding n d by (rule round_half_even_scale [OF c])
  have t: "(2045 < g + 1) = (k = 1023)" "\<not> 2045 < g"
    "int (g + 1) - 1074 = k - 51" "int g - 1074 = k - 52"
    unfolding g_def using k by linarith+
  show ?thesis
    unfolding round_float64_def Let_def n_def [symmetric] bl gj r t
    unfolding x_def y_def using t(2) by simp
qed

lemma round_float64_101_100: "round_float64 101 100 = Some (4548635623644201, - 52)"
  using round_float64_normal [of 100 0 101]
  by (simp add: round_half_even_def Let_def)

lemma round_float64_1010_1000: "round_float64 1010 1000 = Some (4548635623644201, - 52)"
  using round_float64_normal [of 1000 0 1010]
  by (simp add: round_half_even_def Let_def)

lemma round_half_even_half_up:
  assumes "0 < d" and "odd c" and "(2 * c + 1) * d \<le> 2 * n"
  shows "c + 1 \<le> round_half_even n d"
proof -
  have "c * d \<le> n" using assms(3) by (simp add: algebra_simps)
  then have q: "c \<le> n div d" using assms(1) by (simp add: less_eq_div_iff_mult_less_eq)
  show ?thesis
  proof (cases "c = n div d")
    case False
    then show ?thesis using q round_half_even_cases [OF assms(1), of n] by linarith
  next
    case True
    have "n = n div d * d + n mod d" by simp
    then have "n = c * d + n mod d" using True by simp
    then have "d \<le> 2 * (n mod d)" using assms(3) by (simp add: algebra_simps)
    then show ?thesis
      using True assms(2) by (auto simp add: round_half_even_def Let_def)
  qed
qed

lemma round_float64_None_iff:
  assumes "0 < b"
  shows "round_float64 a b = None \<longleftrightarrow> 18014398509481983 * 2 ^ 970 * b \<le> a"
proof -
  define n where "n = a * 2 ^ 1074"
  define g where "g = bit_length (n div b) - 53"
  define d where "d = b * 2 ^ g"
  define m0 where "m0 = round_half_even n d"
  define W where "W = (2 :: nat) ^ 2044"
  have W: "W = 2 ^ 970 * 2 ^ 1074" unfolding W_def by (simp only: power_add [symmetric]) simp
  have Wpos: "0 < W" unfolding W_def by simp
  have u: "round_float64 a b = None \<longleftrightarrow> (if m0 = 2 ^ 53 then 2045 < g + 1 else 2045 < g)"
    unfolding round_float64_def Let_def n_def [symmetric] g_def [symmetric] d_def [symmetric]
      m0_def [symmetric]
    by simp
  have d: "0 < d" using assms unfolding d_def by simp
  have up: "m0 \<le> 2 ^ 53"
    unfolding m0_def d_def g_def by (rule mantissa_upper [OF assms])
  have "18014398509481983 * 2 ^ 970 * b \<le> a
        \<longleftrightarrow> (18014398509481983 * 2 ^ 970 * b) * 2 ^ 1074 \<le> a * 2 ^ 1074"
    by (simp only: mult_le_cancel2) simp
  also have "(18014398509481983 * 2 ^ 970 * b) * 2 ^ 1074 = 18014398509481983 * W * b"
    unfolding W by (simp only: mult_ac)
  finally have thr: "18014398509481983 * 2 ^ 970 * b \<le> a \<longleftrightarrow> 18014398509481983 * W * b \<le> n"
    unfolding n_def .
  have g2045: "(2 :: nat) ^ 2045 = 2 * W" unfolding W_def by (simp only: power_Suc [symmetric]) simp
  have "round_float64 a b = None \<longleftrightarrow> 18014398509481983 * W * b \<le> n"
  proof
    assume "round_float64 a b = None"
    then have c: "if m0 = 2 ^ 53 then 2045 < g + 1 else 2045 < g" unfolding u .
    show "18014398509481983 * W * b \<le> n"
    proof (cases "2045 < g")
      case True
      then have "0 < bit_length (n div b) - 53" unfolding g_def by simp
      then have "2 ^ 52 * (b * 2 ^ (bit_length (n div b) - 53)) \<le> n"
        by (rule mantissa_lower(1) [OF assms])
      then have lo: "2 ^ 52 * d \<le> n" unfolding d_def g_def .
      have "(2 :: nat) ^ Suc 2045 \<le> 2 ^ g" using True by (intro power_increasing) simp_all
      then have "4 * W \<le> 2 ^ g" unfolding power_Suc g2045 by simp
      then have "b * (4 * W) \<le> b * 2 ^ g" by (rule mult_left_mono) simp
      then have "4 * W * b \<le> d" unfolding d_def by (simp only: mult_ac)
      then have "2 ^ 52 * (4 * W * b) \<le> 2 ^ 52 * d" by (rule mult_left_mono) simp
      then have "18014398509481984 * (W * b) \<le> n" using lo by (simp add: mult_ac)
      moreover have "18014398509481983 * (W * b) \<le> 18014398509481984 * (W * b)"
        by (rule mult_right_mono) simp_all
      ultimately show ?thesis by (simp only: mult.assoc)
    next
      case False
      then have g: "g = 2045" and m: "m0 = 2 ^ 53" using c by (simp_all split: if_splits)
      have "2 * \<bar>int n - int m0 * int d\<bar> \<le> int d"
        unfolding m0_def by (rule round_half_even_error [OF d])
      moreover have "2 * \<bar>N - X\<bar> \<le> D \<Longrightarrow> 2 * X - D \<le> 2 * N" for N X D :: int
        by arith
      ultimately have "2 * (int m0 * int d) - int d \<le> 2 * int n" by blast
      then have "18014398509481983 * int d \<le> 2 * int n" unfolding m by simp
      then have "int (18014398509481983 * d) \<le> int (2 * n)" by simp
      then have "18014398509481983 * d \<le> 2 * n" by (simp only: of_nat_le_iff)
      moreover have "d = 2 * (W * b)" unfolding d_def g g2045 by (simp only: mult_ac)
      ultimately show ?thesis by (simp add: mult_ac)
    qed
  next
    assume t: "18014398509481983 * W * b \<le> n"
    have "18014398509481983 * W \<le> n div b"
      using t assms by (simp add: less_eq_div_iff_mult_less_eq)
    moreover have "2 ^ 53 * W \<le> 18014398509481983 * W" by (rule mult_right_mono) simp_all
    moreover have "(2 :: nat) ^ 2097 = 2 ^ 53 * W"
      unfolding W_def by (simp only: power_add [symmetric]) simp
    ultimately have "(2 :: nat) ^ 2097 < 2 ^ bit_length (n div b)"
      using bit_length_upper [of "n div b"] by linarith
    then have "2097 < bit_length (n div b)" by (simp only: power_strict_increasing_iff)
    then have g: "2045 \<le> g" unfolding g_def by simp
    show "round_float64 a b = None"
    proof (cases "g = 2045")
      case False
      then show ?thesis unfolding u using g by simp
    next
      case True
      have "d = 2 * (W * b)" unfolding d_def True g2045 by (simp only: mult_ac)
      then have "(2 * 9007199254740991 + 1) * d \<le> 2 * n" using t by (simp add: mult_ac)
      moreover have "odd (9007199254740991 :: nat)" by simp
      ultimately have "9007199254740991 + 1 \<le> round_half_even n d"
        using d by (intro round_half_even_half_up)
      then have "m0 = 2 ^ 53" using up unfolding m0_def by simp
      then show ?thesis unfolding u using True by simp
    qed
  qed
  then show ?thesis unfolding thr .
qed

lemma round_half_even_tie:
  assumes "0 < d" and "2 * \<bar>int n - int (round_half_even n d) * int d\<bar> = int d"
  shows "even (round_half_even n d)"
proof -
  have n: "int n = int (n div d) * int d + int (n mod d)"
    by (metis div_mult_mod_eq of_nat_add of_nat_mult)
  have r: "int (n mod d) < int d" using assms(1) by simp
  have "2 * int (n mod d) = int d"
    using round_half_even_cases [OF assms(1), of n]
  proof
    assume a: "round_half_even n d = n div d \<and> 2 * (n mod d) \<le> d"
    then have "int n - int (round_half_even n d) * int d = int (n mod d)" using n by simp
    then show ?thesis using assms(2) by simp
  next
    assume a: "round_half_even n d = n div d + 1 \<and> d \<le> 2 * (n mod d)"
    then have "int n - int (round_half_even n d) * int d = int (n mod d) - int d"
      using n by (simp add: algebra_simps)
    then show ?thesis using assms(2) r by simp
  qed
  then have "2 * (n mod d) = d" by linarith
  then show ?thesis by (simp add: round_half_even_def Let_def)
qed

lemma tie_arith:
  fixes D J X N :: int
  assumes "D \<le> \<bar>J - X\<bar>" and "2 * \<bar>N - X\<bar> \<le> D" and "\<bar>N - X\<bar> = \<bar>N - J\<bar>"
  shows "2 * \<bar>N - X\<bar> = D"
proof -
  have "\<bar>J - X\<bar> \<le> \<bar>N - X\<bar> + \<bar>N - J\<bar>"
    by (rule abs_triangle_ineq4 [of "N - X" "N - J", simplified])
  moreover have "C \<le> A + B \<Longrightarrow> D \<le> C \<Longrightarrow> 2 * A \<le> D \<Longrightarrow> A = B \<Longrightarrow> 2 * A = D" for A B C :: int
    by linarith
  ultimately show ?thesis using assms by blast
qed

lemma below_arith:
  fixes A N P Q :: int
  assumes "A \<le> \<bar>N - P\<bar>" and "P \<le> N" and "Q < P"
  shows "A < \<bar>N - Q\<bar>"
  using assms by linarith

lemma round_float64_ties_to_even:
  assumes "0 < b" and "round_float64 a b = Some (m, e)" and "is_float64 m' e'"
    and ne: "m' * 2 ^ nat (e' + 1074) \<noteq> m * 2 ^ nat (e + 1074)"
    and eq: "\<bar>int a * 2 ^ 1074 - int m * 2 ^ nat (e + 1074) * int b\<bar>
             = \<bar>int a * 2 ^ 1074 - int m' * 2 ^ nat (e' + 1074) * int b\<bar>"
  shows "even m"
proof -
  define n where "n = a * 2 ^ 1074"
  define g where "g = bit_length (n div b) - 53"
  define d where "d = b * 2 ^ g"
  define m0 where "m0 = round_half_even n d"
  define g' where "g' = nat (e' + 1074)"
  have d: "0 < d" using assms(1) unfolding d_def by simp
  have v: "m * 2 ^ nat (e + 1074) = m0 * 2 ^ g"
    using round_float64_Some(2) [OF assms(1,2)] unfolding m0_def d_def g_def n_def .
  then have "m * 2 ^ nat (e + 1074) * b = m0 * d" unfolding d_def by simp
  then have "int (m * 2 ^ nat (e + 1074) * b) = int (m0 * d)" by (rule arg_cong)
  then have M: "int m * 2 ^ nat (e + 1074) * int b = int m0 * int d" by simp
  have N: "int a * 2 ^ 1074 = int n" unfolding n_def by simp
  have E: "\<bar>int n - int m0 * int d\<bar> = \<bar>int n - int m' * 2 ^ g' * int b\<bar>"
    using eq unfolding M N g'_def .
  have near: "\<bar>int n - int m0 * int d\<bar> \<le> \<bar>int n - int j * int d\<bar>" for j
    unfolding m0_def by (rule round_half_even_nearest [OF d])
  have err: "2 * \<bar>int n - int m0 * int d\<bar> \<le> int d"
    unfolding m0_def by (rule round_half_even_error [OF d])
  have le: "g \<le> g'"
  proof (rule ccontr)
    assume "\<not> g \<le> g'"
    then have g: "0 < g" "Suc g' \<le> g" by simp_all
    have lo: "2 ^ 52 * d \<le> n"
      using mantissa_lower(1) [OF assms(1), of n] g(1) unfolding d_def g_def by simp
    have "m' < 2 ^ 53" using assms(3) by (simp add: is_float64_def)
    then have "m' * 2 ^ g' < 2 ^ 53 * 2 ^ g'" by simp
    also have "\<dots> = 2 ^ 52 * 2 ^ Suc g'" by simp
    also have "\<dots> \<le> 2 ^ 52 * 2 ^ g"
      using g(2) by (intro mult_left_mono power_increasing) simp_all
    finally have "m' * 2 ^ g' * b < 2 ^ 52 * 2 ^ g * b" using assms(1) by simp
    then have "m' * 2 ^ g' * b < 2 ^ 52 * d" unfolding d_def by (simp add: mult_ac)
    then have "int (m' * 2 ^ g' * b) < int (2 ^ 52 * d)" by (simp only: of_nat_less_iff)
    then have lt: "int m' * 2 ^ g' * int b < 2 ^ 52 * int d" by simp
    have "int (2 ^ 52 * d) \<le> int n" using lo by (simp only: of_nat_le_iff)
    then have le: "2 ^ 52 * int d \<le> int n" by simp
    have "\<bar>int n - int m0 * int d\<bar> \<le> \<bar>int n - int (2 ^ 52) * int d\<bar>" by (rule near)
    then have "\<bar>int n - int m0 * int d\<bar> \<le> \<bar>int n - 2 ^ 52 * int d\<bar>" by simp
    then have "\<bar>int n - int m0 * int d\<bar> < \<bar>int n - int m' * 2 ^ g' * int b\<bar>"
      using le lt by (rule below_arith)
    then show False using E by simp
  qed
  define j where "j = m' * 2 ^ (g' - g)"
  have p: "(2 :: nat) ^ g' = 2 ^ (g' - g) * 2 ^ g" using le by (simp add: power_add [symmetric])
  then have "m' * 2 ^ g' = j * 2 ^ g" unfolding j_def by simp
  then have jm: "j \<noteq> m0" using ne v unfolding g'_def by auto
  have "m' * 2 ^ g' * b = j * d" unfolding d_def j_def p by simp
  then have "int (m' * 2 ^ g' * b) = int (j * d)" by (rule arg_cong)
  then have "int m' * 2 ^ g' * int b = int j * int d"
    by (simp only: of_nat_mult of_nat_power of_nat_numeral)
  then have E': "\<bar>int n - int m0 * int d\<bar> = \<bar>int n - int j * int d\<bar>" using E by (simp only:)
  have "\<bar>int j - int m0\<bar> \<ge> 1" using jm by linarith
  then have "\<bar>int j - int m0\<bar> * int d \<ge> 1 * int d"
    by (intro mult_right_mono) simp_all
  then have "int d \<le> \<bar>int j * int d - int m0 * int d\<bar>"
    by (simp add: abs_mult left_diff_distrib [symmetric])
  then have "2 * \<bar>int n - int m0 * int d\<bar> = int d" using err E' by (rule tie_arith)
  then have "even m0" unfolding m0_def by (rule round_half_even_tie [OF d])
  moreover have "m = m0 \<or> m = 2 ^ 52"
    using assms(2) unfolding round_float64_def Let_def n_def [symmetric] g_def [symmetric]
      d_def [symmetric] m0_def [symmetric]
    by (auto split: if_splits)
  ultimately show ?thesis by auto
qed

section \<open>Parsing a float\<close>

lemma parse_decimal_101: "parse_decimal ''1.01'' = Some (False, 101, - 2)"
  by (simp add: parse_decimal_def parse_unsigned_decimal_def parse_exponent_def is_digit_def Let_def)

lemma parse_decimal_1010: "parse_decimal ''1.010'' = Some (False, 1010, - 3)"
  by (simp add: parse_decimal_def parse_unsigned_decimal_def parse_exponent_def is_digit_def Let_def)

lemma parse_decimal_1e999: "parse_decimal ''1e999'' = Some (False, 1, 999)"
  by (simp add: parse_decimal_def parse_unsigned_decimal_def parse_exponent_def is_digit_def Let_def)

lemma parse_decimal_test: "parse_decimal ''test'' = None"
  by (simp add: parse_decimal_def parse_unsigned_decimal_def parse_exponent_def is_digit_def Let_def)

lemma parse_decimal_1x: "parse_decimal ''1x'' = None"
  by (simp add: parse_decimal_def parse_unsigned_decimal_def parse_exponent_def is_digit_def Let_def)

lemma ParseFloat_syntax:
  "ParseFloat s = Inl (Err ''invalid syntax'') \<longleftrightarrow> \<not> is_decimal_literal s"
  unfolding parse_decimal_iff [symmetric] ParseFloat_def
  by (auto split: option.splits)

lemma ParseFloat_range:
  assumes "parse_decimal s = Some (neg, d, x)"
  shows "ParseFloat s = Inl (Err ''value out of range'')
         \<longleftrightarrow> 18014398509481983 * 2 ^ 970 * 10 ^ nat (- x) \<le> d * 10 ^ nat x"
proof -
  have b: "(0 :: nat) < 10 ^ nat (- x)" by simp
  show ?thesis
    unfolding ParseFloat_def assms round_float64_None_iff [OF b, symmetric]
    by (cases "round_float64 (d * 10 ^ nat x) (10 ^ nat (- x))") auto
qed

lemma ParseFloat_value:
  assumes "ParseFloat s = Inr (Float64 neg m e)"
  shows "\<exists>d x. parse_decimal s = Some (neg, d, x)
               \<and> round_float64 (d * 10 ^ nat x) (10 ^ nat (- x)) = Some (m, e)"
  using assms unfolding ParseFloat_def by (auto split: option.splits)

lemma ParseFloat_is_float64:
  assumes "ParseFloat s = Inr (Float64 neg m e)"
  shows "is_float64 m e"
proof -
  obtain d x where r: "round_float64 (d * 10 ^ nat x) (10 ^ nat (- x)) = Some (m, e)"
    using ParseFloat_value [OF assms] by blast
  have b: "(0 :: nat) < 10 ^ nat (- x)" by simp
  show ?thesis by (rule round_float64_Some(1) [OF b r])
qed

text \<open>
  The double that \<open>ParseFloat\<close> returns is a nearest one: no finite double is closer to the
  decimal read. The distances are those to \<open>d\<close> times ten to the \<open>x\<close>, multiplied by
  \<open>2^1074\<close> and by \<open>10^-x\<close> when \<open>x\<close> is negative, which makes them integers.
\<close>

lemma ParseFloat_nearest:
  assumes "parse_decimal s = Some (neg, d, x)" and "ParseFloat s = Inr (Float64 neg' m e)"
    and "is_float64 m' e'"
  shows "\<bar>int (d * 10 ^ nat x) * 2 ^ 1074 - int m * 2 ^ nat (e + 1074) * int (10 ^ nat (- x))\<bar>
         \<le> \<bar>int (d * 10 ^ nat x) * 2 ^ 1074 - int m' * 2 ^ nat (e' + 1074) * int (10 ^ nat (- x))\<bar>"
proof -
  have r: "round_float64 (d * 10 ^ nat x) (10 ^ nat (- x)) = Some (m, e)"
    using ParseFloat_value [OF assms(2)] assms(1) by simp
  have b: "(0 :: nat) < 10 ^ nat (- x)" by simp
  show ?thesis by (rule round_float64_nearest [OF b r assms(3)])
qed

text \<open>
  When another finite double is as close to the decimal read as the one returned, the
  mantissa returned is even.
\<close>

lemma ParseFloat_ties_to_even:
  assumes "parse_decimal s = Some (neg, d, x)" and "ParseFloat s = Inr (Float64 neg' m e)"
    and "is_float64 m' e'"
    and "m' * 2 ^ nat (e' + 1074) \<noteq> m * 2 ^ nat (e + 1074)"
    and "\<bar>int (d * 10 ^ nat x) * 2 ^ 1074 - int m * 2 ^ nat (e + 1074) * int (10 ^ nat (- x))\<bar>
         = \<bar>int (d * 10 ^ nat x) * 2 ^ 1074 - int m' * 2 ^ nat (e' + 1074) * int (10 ^ nat (- x))\<bar>"
  shows "even m"
proof -
  have r: "round_float64 (d * 10 ^ nat x) (10 ^ nat (- x)) = Some (m, e)"
    using ParseFloat_value [OF assms(2)] assms(1) by simp
  have b: "(0 :: nat) < 10 ^ nat (- x)" by simp
  show ?thesis by (rule round_float64_ties_to_even [OF b r assms(3,4,5)])
qed

lemma ParseFloat_101: "ParseFloat ''1.01'' = Inr (Float64 False 4548635623644201 (- 52))"
  by (simp add: ParseFloat_def parse_decimal_101 round_float64_101_100)

lemma ParseFloat_1010: "ParseFloat ''1.010'' = Inr (Float64 False 4548635623644201 (- 52))"
  by (simp add: ParseFloat_def parse_decimal_1010 round_float64_1010_1000)

lemma largest_double_below_10_999: "18014398509481983 * 2 ^ 970 \<le> (10 :: nat) ^ 999"
proof -
  have "18014398509481983 * 2 ^ 970 \<le> 2 ^ 54 * (2 :: nat) ^ 970"
    by (rule mult_right_mono) simp_all
  also have "\<dots> = 2 ^ (54 + 970)" by (rule power_add [symmetric])
  also have "\<dots> \<le> 2 ^ (3 * 999)" by (rule power_increasing) simp_all
  also have "\<dots> = (2 ^ 3) ^ 999" by (rule power_mult)
  also have "\<dots> \<le> 10 ^ 999" by (rule power_mono) simp_all
  finally show ?thesis .
qed

lemma ParseFloat_1e999: "ParseFloat ''1e999'' = Inl (Err ''value out of range'')"
proof -
  have e: "nat (- (999 :: int)) = 0" "nat (999 :: int) = 999" by simp_all
  have "18014398509481983 * 2 ^ 970 * 10 ^ nat (- (999 :: int)) \<le> (1 :: nat) * 10 ^ nat (999 :: int)"
    unfolding e power_0 mult_1 mult_1_right by (rule largest_double_below_10_999)
  then show ?thesis by (rule ParseFloat_range [OF parse_decimal_1e999, THEN iffD2])
qed

lemma Float64bits_101:
  "Float64bits (Float64 False 4548635623644201 (- 52)) = 4607227454796291113"
  by (simp add: Float64bits_def)

lemma parse_rfc3339_example:
  "parse_rfc3339 ''2020-01-01T00:00:00Z''
   = Some \<lparr>year = 2020, month = 1, day = 1, hour = 0, minute = 0, second = 0,
           fraction = [], offsetMinutes = 0\<rparr>"
  by (simp add: parse_rfc3339_def parse_zone_def days_in_month_def is_digit_def Let_def)

lemma parse_rfc3339_month_13: "parse_rfc3339 ''2020-13-01T00:00:00Z'' = None"
  by (simp add: parse_rfc3339_def parse_zone_def days_in_month_def is_digit_def Let_def)

lemma parse_rfc3339_1: "parse_rfc3339 ''1'' = None"
  by (simp add: parse_rfc3339_def)

section \<open>Typed column values\<close>

lemma parse_digits_point:
  "CHR ''.'' \<in> set ds \<Longrightarrow> parse_digits b ds = (0, Some (Err ''invalid syntax''))"
proof -
  assume "CHR ''.'' \<in> set ds"
  moreover have "\<not> is_digit CHR ''.''" by (simp add: is_digit_def)
  ultimately have "\<not> list_all is_digit ds" by (auto simp add: list_all_iff)
  then show ?thesis by (simp add: parse_digits_def)
qed

lemma Atoi_point: "CHR ''.'' \<in> set data \<Longrightarrow> Atoi data = (0, Some (Err ''invalid syntax''))"
proof (cases data)
  case Nil
  then show ?thesis by (simp add: Atoi.simps)
next
  case (Cons c cs)
  assume m: "CHR ''.'' \<in> set data"
  show ?thesis
  proof (cases "c = CHR ''-'' \<or> c = CHR ''+''")
    case True
    then have "CHR ''.'' \<in> set cs" using m Cons by auto
    then show ?thesis using Cons True by (auto simp add: Atoi.simps parse_digits_point)
  next
    case False
    then show ?thesis using Cons m by (simp add: Atoi.simps parse_digits_point)
  qed
qed

lemma Atoi_ok_range:
  "Atoi data = (n, None) \<Longrightarrow> - 9223372036854775808 \<le> n \<and> n < 9223372036854775808"
  using Atoi_range [of data] by simp

lemma ProcessColumnValue_float:
  "ProcessColumnValue data FloatDataType
   = (case ParseFloat data of Inl err \<Rightarrow> Inl err | Inr f \<Rightarrow> Inr (FloatValue f))"
  by (simp add: ProcessColumnValue_def)

lemma ProcessColumnValue_datetime:
  "ProcessColumnValue data DateTimeDataType
   = (case parse_rfc3339 data of
        None \<Rightarrow> Inl (Err ''cannot parse as RFC 3339'')
      | Some t \<Rightarrow> Inr (TimeValue t))"
  by (simp add: ProcessColumnValue_def)

text \<open>
  C6. Against the model of the spec's rules. As \<open>int\<close>: every input with a decimal point
  is an error, \<open>1.01\<close> among them; \<open>1\<close> yields the integer 1; an accepted integer lies in
  the 64-bit signed range. As \<open>float\<close>: every input that is no decimal number is a syntax
  error, \<open>test\<close> among them, and a decimal number is either accepted or out of range;
  \<open>1.01\<close> yields the double of mantissa 4548635623644201 and exponent -52, whose 64 bits
  are 3FF028F5C28F5C29 in hexadecimal, and so does \<open>1.010\<close>; \<open>1e999\<close> is out of range;
  an accepted value is a finite double in its one form. As \<open>boolean\<close>: exactly \<open>true\<close> and
  \<open>false\<close>, in any case, are accepted. As \<open>datetime\<close>: every input that is no RFC 3339
  timestamp is an error, \<open>1\<close> among them, and every string of the grammar is accepted,
  \<open>2020-01-01T00:00:00Z\<close> among them.
\<close>

theorem ProcessColumnValue_typed_parsing:
  "(CHR ''.'' \<in> set data \<longrightarrow> ProcessColumnValue data IntDataType = Inl (Err ''invalid syntax''))
   \<and> ProcessColumnValue ''1.01'' IntDataType = Inl (Err ''invalid syntax'')
   \<and> ProcessColumnValue ''1'' IntDataType = Inr (IntValue 1)
   \<and> (ProcessColumnValue data IntDataType = Inr (IntValue n)
        \<longrightarrow> - 9223372036854775808 \<le> n \<and> n < 9223372036854775808)
   \<and> (\<not> is_decimal_literal data
        \<longrightarrow> ProcessColumnValue data FloatDataType = Inl (Err ''invalid syntax''))
   \<and> (is_decimal_literal data
        \<longrightarrow> (\<exists>f. ProcessColumnValue data FloatDataType = Inr (FloatValue f))
            \<or> ProcessColumnValue data FloatDataType = Inl (Err ''value out of range''))
   \<and> ProcessColumnValue ''test'' FloatDataType = Inl (Err ''invalid syntax'')
   \<and> ProcessColumnValue ''1.01'' FloatDataType
       = Inr (FloatValue (Float64 False 4548635623644201 (- 52)))
   \<and> Float64bits (Float64 False 4548635623644201 (- 52)) = 4607227454796291113
   \<and> ProcessColumnValue ''1.010'' FloatDataType
       = Inr (FloatValue (Float64 False 4548635623644201 (- 52)))
   \<and> ProcessColumnValue ''1e999'' FloatDataType = Inl (Err ''value out of range'')
   \<and> (ProcessColumnValue data FloatDataType = Inr (FloatValue (Float64 neg m e))
        \<longrightarrow> is_float64 m e)
   \<and> ((\<exists>v. ProcessColumnValue data BooleanDataType = Inr v)
        \<longleftrightarrow> map to_lower data = ''true'' \<or> map to_lower data = ''false'')
   \<and> ProcessColumnValue ''true'' BooleanDataType = Inr (BoolValue True)
   \<and> ProcessColumnValue ''false'' BooleanDataType = Inr (BoolValue False)
   \<and> ProcessColumnValue ''test'' BooleanDataType = Inl (Err ''invalid syntax'')
   \<and> (\<not> is_rfc3339 data
        \<longrightarrow> ProcessColumnValue data DateTimeDataType = Inl (Err ''cannot parse as RFC 3339''))
   \<and> (is_rfc3339 data
        \<longrightarrow> (\<exists>t. ProcessColumnValue data DateTimeDataType = Inr (TimeValue t)))
   \<and> ProcessColumnValue ''1'' DateTimeDataType = Inl (Err ''cannot parse as RFC 3339'')
   \<and> ProcessColumnValue ''2020-01-01T00:00:00Z'' DateTimeDataType
       = Inr (TimeValue \<lparr>year = 2020, month = 1, day = 1, hour = 0, minute = 0, second = 0,
                         fraction = [], offsetMinutes = 0\<rparr>)"
proof -
  have i1: "CHR ''.'' \<in> set data \<longrightarrow> ProcessColumnValue data IntDataType = Inl (Err ''invalid syntax'')"
    by (simp add: ProcessColumnValue_def Atoi_point)
  have i2: "ProcessColumnValue ''1.01'' IntDataType = Inl (Err ''invalid syntax'')"
    by (simp add: ProcessColumnValue_def Atoi_point)
  have i3: "ProcessColumnValue ''1'' IntDataType = Inr (IntValue 1)"
    by (simp add: ProcessColumnValue_def Atoi.simps parse_digits_def is_digit_def)
  have i4: "ProcessColumnValue data IntDataType = Inr (IntValue n)
        \<longrightarrow> - 9223372036854775808 \<le> n \<and> n < 9223372036854775808"
    using Atoi_ok_range [of data n]
    by (auto simp add: ProcessColumnValue_def split: prod.splits option.splits)
  have f1: "\<not> is_decimal_literal data
        \<longrightarrow> ProcessColumnValue data FloatDataType = Inl (Err ''invalid syntax'')"
    using ParseFloat_syntax [of data] by (auto simp add: ProcessColumnValue_float)
  have f2: "is_decimal_literal data
        \<longrightarrow> (\<exists>f. ProcessColumnValue data FloatDataType = Inr (FloatValue f))
            \<or> ProcessColumnValue data FloatDataType = Inl (Err ''value out of range'')"
  proof
    assume "is_decimal_literal data"
    then obtain neg d x where p: "parse_decimal data = Some (neg, d, x)"
      unfolding parse_decimal_iff [symmetric] by (cases "parse_decimal data") auto
    show "(\<exists>f. ProcessColumnValue data FloatDataType = Inr (FloatValue f))
            \<or> ProcessColumnValue data FloatDataType = Inl (Err ''value out of range'')"
      unfolding ProcessColumnValue_float ParseFloat_def p
      by (cases "round_float64 (d * 10 ^ nat x) (10 ^ nat (- x))") auto
  qed
  have "\<not> is_decimal_literal ''test''"
    unfolding parse_decimal_iff [symmetric] by (simp add: parse_decimal_test)
  then have f3: "ProcessColumnValue ''test'' FloatDataType = Inl (Err ''invalid syntax'')"
    using ParseFloat_syntax [of "''test''"] by (simp add: ProcessColumnValue_float)
  have f4: "ProcessColumnValue ''1.01'' FloatDataType
       = Inr (FloatValue (Float64 False 4548635623644201 (- 52)))"
    by (simp add: ProcessColumnValue_float ParseFloat_101)
  have f5: "Float64bits (Float64 False 4548635623644201 (- 52)) = 4607227454796291113"
    by (rule Float64bits_101)
  have f6: "ProcessColumnValue ''1.010'' FloatDataType
       = Inr (FloatValue (Float64 False 4548635623644201 (- 52)))"
    by (simp add: ProcessColumnValue_float ParseFloat_1010)
  have f7: "ProcessColumnValue ''1e999'' FloatDataType = Inl (Err ''value out of range'')"
    by (simp add: ProcessColumnValue_float ParseFloat_1e999)
  have f8: "ProcessColumnValue data FloatDataType = Inr (FloatValue (Float64 neg m e))
        \<longrightarrow> is_float64 m e"
  proof
    assume "ProcessColumnValue data FloatDataType = Inr (FloatValue (Float64 neg m e))"
    then have "ParseFloat data = Inr (Float64 neg m e)"
      unfolding ProcessColumnValue_float by (cases "ParseFloat data") simp_all
    then show "is_float64 m e" by (rule ParseFloat_is_float64)
  qed
  have b1: "(\<exists>v. ProcessColumnValue data BooleanDataType = Inr v)
        \<longleftrightarrow> map to_lower data = ''true'' \<or> map to_lower data = ''false''"
    by (auto simp add: ProcessColumnValue_def)
  have b2: "ProcessColumnValue ''true'' BooleanDataType = Inr (BoolValue True)"
    by (simp add: ProcessColumnValue_def to_lower_def)
  have b3: "ProcessColumnValue ''false'' BooleanDataType = Inr (BoolValue False)"
    by (simp add: ProcessColumnValue_def to_lower_def)
  have b4: "ProcessColumnValue ''test'' BooleanDataType = Inl (Err ''invalid syntax'')"
    by (simp add: ProcessColumnValue_def to_lower_def)
  have d1: "\<not> is_rfc3339 data
        \<longrightarrow> ProcessColumnValue data DateTimeDataType = Inl (Err ''cannot parse as RFC 3339'')"
    unfolding parse_rfc3339_iff [symmetric] ProcessColumnValue_datetime
    by (cases "parse_rfc3339 data") simp_all
  have d2: "is_rfc3339 data
        \<longrightarrow> (\<exists>t. ProcessColumnValue data DateTimeDataType = Inr (TimeValue t))"
    unfolding parse_rfc3339_iff [symmetric] ProcessColumnValue_datetime
    by (cases "parse_rfc3339 data") simp_all
  have d3: "ProcessColumnValue ''1'' DateTimeDataType = Inl (Err ''cannot parse as RFC 3339'')"
    by (simp add: ProcessColumnValue_datetime parse_rfc3339_1)
  have d4: "ProcessColumnValue ''2020-01-01T00:00:00Z'' DateTimeDataType
       = Inr (TimeValue \<lparr>year = 2020, month = 1, day = 1, hour = 0, minute = 0, second = 0,
                         fraction = [], offsetMinutes = 0\<rparr>)"
    by (simp add: ProcessColumnValue_datetime parse_rfc3339_example)
  show ?thesis
    by (intro conjI i1 i2 i3 i4 f1 f2 f3 f4 f5 f6 f7 f8 b1 b2 b3 b4 d1 d2 d3 d4)
qed

theorem ProcessColumnValue_typed_parsing_witness:
  "CHR ''.'' \<in> set ''12.5''
   \<and> ProcessColumnValue ''12.5'' IntDataType = Inl (Err ''invalid syntax'')
   \<and> ProcessColumnValue ''12'' IntDataType = Inr (IntValue 12)
   \<and> - 9223372036854775808 \<le> (12 :: int) \<and> (12 :: int) < 9223372036854775808
   \<and> \<not> is_decimal_literal ''1x''
   \<and> ProcessColumnValue ''1x'' FloatDataType = Inl (Err ''invalid syntax'')
   \<and> is_decimal_literal ''1.01''
   \<and> (\<exists>f. ProcessColumnValue ''1.01'' FloatDataType = Inr (FloatValue f))
   \<and> is_float64 4548635623644201 (- 52)
   \<and> map to_lower ''TRUE'' = ''true''
   \<and> (\<exists>v. ProcessColumnValue ''TRUE'' BooleanDataType = Inr v)
   \<and> \<not> is_rfc3339 ''2020-13-01T00:00:00Z''
   \<and> ProcessColumnValue ''2020-13-01T00:00:00Z'' DateTimeDataType
       = Inl (Err ''cannot parse as RFC 3339'')
   \<and> is_rfc3339 ''2020-01-01T00:00:00Z''
   \<and> (\<exists>t. ProcessColumnValue ''2020-01-01T00:00:00Z'' DateTimeDataType = Inr (TimeValue t))"
proof -
  have a: "CHR ''.'' \<in> set ''12.5''" by simp
  have w1: "ProcessColumnValue ''12.5'' IntDataType = Inl (Err ''invalid syntax'')"
    using ProcessColumnValue_typed_parsing [where data = "''12.5''",
        THEN conjunct1] a
    by (rule mp)
  have i: "ProcessColumnValue ''12'' IntDataType = Inr (IntValue 12)"
    by (simp add: ProcessColumnValue_def Atoi.simps parse_digits_def is_digit_def Let_def)
  have w2: "- 9223372036854775808 \<le> (12 :: int) \<and> (12 :: int) < 9223372036854775808"
    using ProcessColumnValue_typed_parsing [where data = "''12''" and n = 12,
        THEN conjunct2, THEN conjunct2, THEN conjunct2, THEN conjunct1] i
    by (rule mp)
  have b: "\<not> is_decimal_literal ''1x''"
    unfolding parse_decimal_iff [symmetric] by (simp add: parse_decimal_1x)
  have w3: "ProcessColumnValue ''1x'' FloatDataType = Inl (Err ''invalid syntax'')"
    using ProcessColumnValue_typed_parsing [where data = "''1x''",
        THEN conjunct2, THEN conjunct2, THEN conjunct2, THEN conjunct2, THEN conjunct1] b
    by (rule mp)
  have c: "is_decimal_literal ''1.01''"
    unfolding parse_decimal_iff [symmetric] by (rule exI, rule parse_decimal_101)
  have v: "ProcessColumnValue ''1.01'' FloatDataType
           = Inr (FloatValue (Float64 False 4548635623644201 (- 52)))"
    by (simp add: ProcessColumnValue_float ParseFloat_101)
  have w4: "\<exists>f. ProcessColumnValue ''1.01'' FloatDataType = Inr (FloatValue f)"
    using ProcessColumnValue_typed_parsing [where data = "''1.01''",
        THEN conjunct2, THEN conjunct2, THEN conjunct2, THEN conjunct2, THEN conjunct2,
        THEN conjunct1] c
    by (simp add: v)
  have w5: "is_float64 4548635623644201 (- 52)"
    using ProcessColumnValue_typed_parsing [where data = "''1.01''" and neg = False
        and m = 4548635623644201 and e = "- 52",
        THEN conjunct2, THEN conjunct2, THEN conjunct2, THEN conjunct2, THEN conjunct2,
        THEN conjunct2, THEN conjunct2, THEN conjunct2, THEN conjunct2, THEN conjunct2,
        THEN conjunct2, THEN conjunct1] v
    by (rule mp)
  have d: "map to_lower ''TRUE'' = ''true''" by (simp add: to_lower_def)
  have w6: "\<exists>v. ProcessColumnValue ''TRUE'' BooleanDataType = Inr v"
    using ProcessColumnValue_typed_parsing [where data = "''TRUE''",
        THEN conjunct2, THEN conjunct2, THEN conjunct2, THEN conjunct2, THEN conjunct2,
        THEN conjunct2, THEN conjunct2, THEN conjunct2, THEN conjunct2, THEN conjunct2,
        THEN conjunct2, THEN conjunct2, THEN conjunct1] d
    by simp
  have e: "\<not> is_rfc3339 ''2020-13-01T00:00:00Z''"
    unfolding parse_rfc3339_iff [symmetric] by (simp add: parse_rfc3339_month_13)
  have w7: "ProcessColumnValue ''2020-13-01T00:00:00Z'' DateTimeDataType
            = Inl (Err ''cannot parse as RFC 3339'')"
    using ProcessColumnValue_typed_parsing [where data = "''2020-13-01T00:00:00Z''",
        THEN conjunct2, THEN conjunct2, THEN conjunct2, THEN conjunct2, THEN conjunct2,
        THEN conjunct2, THEN conjunct2, THEN conjunct2, THEN conjunct2, THEN conjunct2,
        THEN conjunct2, THEN conjunct2, THEN conjunct2, THEN conjunct2, THEN conjunct2,
        THEN conjunct2, THEN conjunct1] e
    by (rule mp)
  have f: "is_rfc3339 ''2020-01-01T00:00:00Z''"
    unfolding parse_rfc3339_iff [symmetric] by (rule exI, rule parse_rfc3339_example)
  have w8: "\<exists>t. ProcessColumnValue ''2020-01-01T00:00:00Z'' DateTimeDataType = Inr (TimeValue t)"
    using ProcessColumnValue_typed_parsing [where data = "''2020-01-01T00:00:00Z''",
        THEN conjunct2, THEN conjunct2, THEN conjunct2, THEN conjunct2, THEN conjunct2,
        THEN conjunct2, THEN conjunct2, THEN conjunct2, THEN conjunct2, THEN conjunct2,
        THEN conjunct2, THEN conjunct2, THEN conjunct2, THEN conjunct2, THEN conjunct2,
        THEN conjunct2, THEN conjunct2, THEN conjunct1] f
    by (rule mp)
  show ?thesis by (intro conjI a w1 i w2 [THEN conjunct1] w2 [THEN conjunct2] b w3 c w4 w5 d w6 e w7 f w8)
qed

section \<open>String column values\<close>

lemma take_512_repeat_test:
  "take 512 (concat (replicate 200 ''test'')) = concat (replicate 128 ''test'')"
proof -
  have "replicate 200 ''test'' = replicate 128 ''test'' @ replicate 72 ''test''"
    by (simp add: replicate_add [symmetric])
  moreover have "length (concat (replicate 128 ''test'')) = 512"
    by (simp add: length_concat sum_list_replicate)
  ultimately show ?thesis by simp
qed

lemma hasDiacritics_repeat_test: "\<not> hasDiacritics (concat (replicate 200 ''test''))"
  by (auto simp add: hasDiacritics_def)

lemma length_repeat_test: "length (concat (replicate 200 ''test'')) = 800"
  by (simp add: length_concat sum_list_replicate)

text \<open>
  C8. Against the model of the spec's rule for \<open>string\<close>: an input without a character
  outside ASCII is passed through, truncated to 512 characters, so the 800 characters of
  two hundred times \<open>test\<close> yield their first 512; an input with a character outside ASCII
  yields the UTF-16LE bytes of its first 512 characters, so \<open>t\<close>, e with acute accent,
  \<open>s\<close>, \<open>t\<close> yields the bytes 74 00 e9 00 73 00 74 00.
\<close>

theorem ProcessColumnValue_string:
  "(\<not> hasDiacritics data \<longrightarrow>
      ProcessColumnValue data StringDataType = Inr (TextValue (take 512 data)))
   \<and> (hasDiacritics data \<longrightarrow>
      ProcessColumnValue data StringDataType
        = Inr (BytesValue (utf16le (take 512 (decode_runes (map of_char data))))))
   \<and> length (concat (replicate 200 ''test'')) = 800
   \<and> ProcessColumnValue (concat (replicate 200 ''test'')) StringDataType
       = Inr (TextValue (concat (replicate 128 ''test'')))
   \<and> ProcessColumnValue ''test'' StringDataType = Inr (TextValue ''test'')
   \<and> ProcessColumnValue [CHR ''t'', CHR 0xC3, CHR 0xA9, CHR ''s'', CHR ''t''] StringDataType
       = Inr (BytesValue [0x74, 0x00, 0xE9, 0x00, 0x73, 0x00, 0x74, 0x00])"
proof -
  have a: "\<not> hasDiacritics data \<longrightarrow>
      ProcessColumnValue data StringDataType = Inr (TextValue (take 512 data))"
    by (simp add: ProcessColumnValue_def mssqlStringLengthLimit_def)
  have b: "hasDiacritics data \<longrightarrow>
      ProcessColumnValue data StringDataType
        = Inr (BytesValue (utf16le (take 512 (decode_runes (map of_char data)))))"
    by (simp add: ProcessColumnValue_def mssqlStringLengthLimit_def)
  have c: "ProcessColumnValue (concat (replicate 200 ''test'')) StringDataType
       = Inr (TextValue (concat (replicate 128 ''test'')))"
    using hasDiacritics_repeat_test take_512_repeat_test
    by (simp add: ProcessColumnValue_def mssqlStringLengthLimit_def)
  have d: "ProcessColumnValue ''test'' StringDataType = Inr (TextValue ''test'')"
    by (simp add: ProcessColumnValue_def mssqlStringLengthLimit_def hasDiacritics_def)
  have e: "ProcessColumnValue [CHR ''t'', CHR 0xC3, CHR 0xA9, CHR ''s'', CHR ''t''] StringDataType
       = Inr (BytesValue [0x74, 0x00, 0xE9, 0x00, 0x73, 0x00, 0x74, 0x00])"
    by (simp add: ProcessColumnValue_def mssqlStringLengthLimit_def hasDiacritics_def
        seq2_def seq3_def seq4_def is_cont_def utf16le_def utf16_units_def)
  show ?thesis by (intro conjI a b length_repeat_test c d e)
qed

theorem ProcessColumnValue_string_witness:
  "\<not> hasDiacritics ''warehouse''
   \<and> ProcessColumnValue ''warehouse'' StringDataType = Inr (TextValue ''warehouse'')
   \<and> hasDiacritics [CHR 0xC3, CHR 0x9C]
   \<and> ProcessColumnValue [CHR 0xC3, CHR 0x9C] StringDataType = Inr (BytesValue [0xDC, 0x00])"
proof -
  have a: "\<not> hasDiacritics ''warehouse''" by (simp add: hasDiacritics_def)
  have b: "hasDiacritics [CHR 0xC3, CHR 0x9C]" by (simp add: hasDiacritics_def)
  have w1: "ProcessColumnValue ''warehouse'' StringDataType = Inr (TextValue (take 512 ''warehouse''))"
    using ProcessColumnValue_string [of "''warehouse''", THEN conjunct1] a by (rule mp)
  have w2: "ProcessColumnValue [CHR 0xC3, CHR 0x9C] StringDataType
        = Inr (BytesValue (utf16le (take 512 (decode_runes (map of_char [CHR 0xC3, CHR 0x9C])))))"
    using ProcessColumnValue_string [of "[CHR 0xC3, CHR 0x9C]", THEN conjunct2, THEN conjunct1] b
    by (rule mp)
  have "utf16le (take 512 (decode_runes (map of_char [CHR 0xC3, CHR 0x9C]))) = [0xDC, 0x00]"
    by (simp add: seq2_def seq3_def seq4_def is_cont_def utf16le_def utf16_units_def)
  then show ?thesis using a b w1 w2 by simp
qed

section \<open>Loading the same rows twice\<close>

lemma merge_row_fresh:
  "t (row_id r) = None \<Longrightarrow>
   merge_row (t, st) r = (put_row t r, st\<lparr>RowsInserted := RowsInserted st + 1\<rparr>)"
  by (simp add: merge_row_def)

lemma merge_row_held:
  "t (row_id r) = Some old \<Longrightarrow>
   merge_row (t, st) r = (put_row t r, st\<lparr>RowsUpdated := RowsUpdated st + 1\<rparr>)"
  by (simp add: merge_row_def)

lemma foldl_merge_row_fresh:
  "distinct (map row_id rows) \<Longrightarrow> \<forall>r\<in>set rows. t (row_id r) = None \<Longrightarrow>
   foldl merge_row (t, st) rows =
     (foldl put_row t rows,
      st\<lparr>RowsInserted := RowsInserted st + int (length rows)\<rparr>)"
proof (induction rows arbitrary: t st)
  case Nil
  then show ?case by simp
next
  case (Cons r rows)
  have "put_row t r (row_id x) = None" if x: "x \<in> set rows" for x
  proof -
    have "row_id x \<in> set (map row_id rows)" using x by simp
    then have "row_id x \<noteq> row_id r" using Cons.prems(1) by auto
    moreover have "t (row_id x) = None" using Cons.prems(2) x by simp
    ultimately show ?thesis by (simp add: put_row_def)
  qed
  then have "\<forall>x\<in>set rows. put_row t r (row_id x) = None" by blast
  then have "foldl merge_row (put_row t r, st\<lparr>RowsInserted := RowsInserted st + 1\<rparr>) rows =
     (foldl put_row (put_row t r) rows,
      st\<lparr>RowsInserted := RowsInserted st + 1\<rparr>\<lparr>RowsInserted :=
        RowsInserted (st\<lparr>RowsInserted := RowsInserted st + 1\<rparr>) + int (length rows)\<rparr>)"
    using Cons.prems by (intro Cons.IH) simp_all
  moreover have "merge_row (t, st) r = (put_row t r, st\<lparr>RowsInserted := RowsInserted st + 1\<rparr>)"
    using Cons.prems by (intro merge_row_fresh) simp
  ultimately show ?case by (simp add: add.assoc)
qed

lemma foldl_merge_row_held:
  "\<forall>r\<in>set rows. t (row_id r) \<noteq> None \<Longrightarrow>
   foldl merge_row (t, st) rows =
     (foldl put_row t rows,
      st\<lparr>RowsUpdated := RowsUpdated st + int (length rows)\<rparr>)"
proof (induction rows arbitrary: t st)
  case Nil
  then show ?case by simp
next
  case (Cons r rows)
  obtain old where old: "t (row_id r) = Some old" using Cons.prems by auto
  have "\<forall>x\<in>set rows. put_row t r (row_id x) \<noteq> None"
    using Cons.prems by (auto simp add: put_row_def)
  then have "foldl merge_row (put_row t r, st\<lparr>RowsUpdated := RowsUpdated st + 1\<rparr>) rows =
     (foldl put_row (put_row t r) rows,
      st\<lparr>RowsUpdated := RowsUpdated st + 1\<rparr>\<lparr>RowsUpdated :=
        RowsUpdated (st\<lparr>RowsUpdated := RowsUpdated st + 1\<rparr>) + int (length rows)\<rparr>)"
    by (rule Cons.IH)
  moreover have "merge_row (t, st) r = (put_row t r, st\<lparr>RowsUpdated := RowsUpdated st + 1\<rparr>)"
    using old by (rule merge_row_held)
  ultimately show ?case by (simp add: add.assoc)
qed

lemma foldl_put_other:
  "k \<notin> row_id ` set rows \<Longrightarrow> foldl put_row t rows k = t k"
  by (induction rows arbitrary: t) (auto simp add: put_row_def)

lemma foldl_put_holds:
  "distinct (map row_id rows) \<Longrightarrow> r \<in> set rows \<Longrightarrow>
   foldl put_row t rows (row_id r) = Some r"
proof (induction rows arbitrary: t)
  case Nil
  then show ?case by simp
next
  case (Cons x rows)
  show ?case
  proof (cases "r = x")
    case True
    then have "row_id r \<notin> row_id ` set rows" using Cons.prems(1) by auto
    then have "foldl put_row (put_row t x) rows (row_id r) = put_row t x (row_id r)"
      by (rule foldl_put_other)
    moreover have "put_row t x (row_id r) = Some r" using True by (simp add: put_row_def)
    ultimately show ?thesis by simp
  next
    case False
    then have "foldl put_row (put_row t x) rows (row_id r) = Some r"
      using Cons.prems by (intro Cons.IH) simp_all
    then show ?thesis by simp
  qed
qed

lemma foldl_put_same:
  "\<forall>r\<in>set rows. t (row_id r) = Some r \<Longrightarrow> foldl put_row t rows = t"
proof (induction rows arbitrary: t)
  case Nil
  then show ?case by simp
next
  case (Cons x rows)
  then have "put_row t x = t" by (auto simp add: put_row_def fun_upd_idem_iff)
  then show ?case using Cons by simp
qed

text \<open>
  C7. Against the model of the spec's merge by \<open>id\<close>: loading rows with pairwise distinct
  ids, none of them held by the table, reports every row as inserted and none as updated;
  loading the same rows again reports none as inserted and every row as updated, and leaves
  the table as the first run left it. For 14 rows the counts are 14 and 0, then 0 and 14.
\<close>

theorem LoadTable_twice:
  assumes "distinct (map row_id rows)" and "\<forall>r\<in>set rows. t (row_id r) = None"
  shows "snd (LoadTable t rows) = \<lparr>RowsInserted = int (length rows), RowsUpdated = 0\<rparr>
         \<and> snd (LoadTable (fst (LoadTable t rows)) rows)
             = \<lparr>RowsInserted = 0, RowsUpdated = int (length rows)\<rparr>
         \<and> fst (LoadTable (fst (LoadTable t rows)) rows) = fst (LoadTable t rows)
         \<and> (length rows = 14 \<longrightarrow>
              snd (LoadTable t rows) = \<lparr>RowsInserted = 14, RowsUpdated = 0\<rparr>
              \<and> snd (LoadTable (fst (LoadTable t rows)) rows)
                  = \<lparr>RowsInserted = 0, RowsUpdated = 14\<rparr>)"
proof -
  let ?t1 = "foldl put_row t rows"
  have first: "LoadTable t rows = (?t1, \<lparr>RowsInserted = int (length rows), RowsUpdated = 0\<rparr>)"
    using foldl_merge_row_fresh [OF assms, of "\<lparr>RowsInserted = 0, RowsUpdated = 0\<rparr>"]
    by (simp add: LoadTable_def)
  have held: "\<forall>r\<in>set rows. ?t1 (row_id r) = Some r"
    using assms(1) by (simp add: foldl_put_holds)
  then have "\<forall>r\<in>set rows. ?t1 (row_id r) \<noteq> None" by simp
  then have "LoadTable ?t1 rows
             = (foldl put_row ?t1 rows,
                \<lparr>RowsInserted = 0, RowsUpdated = int (length rows)\<rparr>)"
    using foldl_merge_row_held [of rows ?t1 "\<lparr>RowsInserted = 0, RowsUpdated = 0\<rparr>"]
    by (simp add: LoadTable_def)
  then have second: "LoadTable ?t1 rows = (?t1, \<lparr>RowsInserted = 0, RowsUpdated = int (length rows)\<rparr>)"
    using foldl_put_same [OF held] by simp
  show ?thesis using first second by simp
qed

theorem LoadTable_twice_witness:
  "distinct (map row_id staging_rows) \<and> length staging_rows = 14
   \<and> snd (LoadTable Map.empty staging_rows) = \<lparr>RowsInserted = 14, RowsUpdated = 0\<rparr>
   \<and> snd (LoadTable (fst (LoadTable Map.empty staging_rows)) staging_rows)
       = \<lparr>RowsInserted = 0, RowsUpdated = 14\<rparr>
   \<and> fst (LoadTable (fst (LoadTable Map.empty staging_rows)) staging_rows)
       = fst (LoadTable Map.empty staging_rows)"
proof -
  have d: "distinct (map row_id staging_rows)" by (simp add: staging_rows_def)
  have l: "length staging_rows = 14" by (simp add: staging_rows_def)
  have e: "\<forall>r\<in>set staging_rows. Map.empty (row_id r) = None" by simp
  show ?thesis using d l LoadTable_twice [OF d e] by simp
qed

end
